theory Spec2Isabelle
  imports Main "HOL-Library.AList"
begin

section \<open>The plugin worker pool (plugin-pool.ts)\<close>

text \<open>
  The module runs on the single-threaded event loop of the host: every listener
  (a call of an operation of the handle, the \<open>message\<close> listener, the \<open>exit\<close> listener,
  the shutdown function) runs to completion, then the microtask queue is drained (the
  \<open>finally\<close> callbacks and the continuations of \<open>await\<close>), and only then is the next
  event taken. The model is a step function over one worker's supervisor: a turn is the
  listener followed by the drain. A thrown exception is the \<open>Inl\<close> of a sum.
\<close>

subsection \<open>Values and messages\<close>

type_synonym json = string
type_synonym tx = string

datatype remote_op = CreateNodes | CreateDependencies | ProcessProjectGraph

text \<open>Host to worker: the \<open>load\<close> request and the three operation requests.\<close>

datatype request = Load json json | OpRequest remote_op json tx

text \<open>
  Worker to host (\<open>PluginWorkerResult\<close>): the success flag of a result payload is the
  constructor. A successful load reports the name, the \<open>createNodesPattern\<close> (absent
  when undefined) and the two flags.
\<close>

datatype load_result = LoadSuccess string "string option" bool bool | LoadFailure json

datatype op_result = OpSuccess json | OpFailure json

datatype worker_result =
    LoadResult load_result
  | CreateDependenciesResult tx op_result
  | CreateNodesResult tx op_result
  | ProcessProjectGraphResult tx op_result

text \<open>
  What a promise of a transaction is rejected with: the error a result message
  reports, or the \<open>Error\<close> the exit handler builds (its message).
\<close>

datatype rejection = Reported json | ExitedUnexpectedly string

datatype outcome = Pending | Fulfilled json | Rejected rejection

text \<open>
  Exceptions: destructuring \<open>undefined\<close> in a result handler; calling an operation that
  is \<open>undefined\<close> on the handle; calling an operation before there is a handle.
\<close>

datatype thrown = DestructureUndefined | NotAFunction | NoHandle

subsection \<open>The handle, the promises and the supervisor's state\<close>

text \<open>
  \<open>RemotePlugin\<close>: an optional operation is \<open>None\<close> when the field is undefined; when
  present, the closure is named by the request it sends.
\<close>

record remote_plugin =
  name :: string
  createNodes :: "(string \<times> remote_op) option"
  createDependencies :: "remote_op option"
  processProjectGraph :: "remote_op option"

datatype load_outcome = LoadPending | LoadResolved remote_plugin | LoadRejected json

text \<open>
  A promise made by \<open>registerPendingPromise\<close>, with the identifier its \<open>finally\<close>
  callback has captured. A promise is named by its index in \<open>promises\<close>.
\<close>

record txn =
  tx_id :: tx
  outcome :: outcome

text \<open>The observable actions, in program order.\<close>

datatype effect =
    Sent request
  | Registered tx nat
  | Resolver nat json
  | Rejector nat rejection
  | Deleted tx
  | OffExit
  | CacheCleared
  | Awaiting "nat list"
  | AwaitRejected "nat list"
  | Kill

text \<open>
  The \<open>ChildProcess\<close> (\<open>pid\<close>, \<open>exitCode\<close>, \<open>exited\<close>, \<open>killed\<close>, whether \<open>exitHandler\<close>
  is attached), the variables of the closures of \<open>loadRemoteNxPlugin\<close> and
  \<open>createWorkerHandler\<close> (\<open>pluginName\<close>, \<open>pending\<close>, the load promise), the module's
  globals (\<open>pluginNames\<close>, \<open>cleanupFunctions\<close>, each cleanup function named by the pid
  of its worker, and the imported \<open>nxPluginCache\<close>), the promises, the \<open>finally\<close>
  callbacks queued in this turn, the suspended calls of \<open>shutdownPluginWorker\<close> (each
  with the promises its \<open>Promise.all\<close> waits for), and the trace.
\<close>

record pool =
  pid :: nat
  exitCode :: "int option"
  exited :: bool
  killed :: bool
  exitListener :: bool
  pluginName :: "string option"
  pending :: "(tx \<times> nat) list"
  loadPromise :: load_outcome
  pluginNames :: "(nat \<times> string) list"
  cleanupFunctions :: "nat list"
  nxPluginCache :: "string list"
  promises :: "txn list"
  finallyQueue :: "tx list"
  shutdownWaits :: "nat list list"
  trace :: "effect list"

subsection \<open>String conversions\<close>

definition digit :: "nat \<Rightarrow> char" where
  "digit n = ''0123456789'' ! n"

fun show_nat :: "nat \<Rightarrow> string" where
  "show_nat n = (if n < 10 then [digit n] else show_nat (n div 10) @ [digit (n mod 10)])"

declare show_nat.simps [simp del]

definition show_int :: "int \<Rightarrow> string" where
  "show_int i = (if i < 0 then CHR ''-'' # show_nat (nat (- i)) else show_nat (nat i))"

text \<open>\<open>worker.exitCode\<close> is a number or null.\<close>

definition show_exitCode :: "int option \<Rightarrow> string" where
  "show_exitCode c = (case c of None \<Rightarrow> ''null'' | Some i \<Rightarrow> show_int i)"

text \<open>\<open>pluginName\<close> is declared without a value: concatenation renders undefined.\<close>

definition js_string :: "string option \<Rightarrow> string" where
  "js_string v = (case v of None \<Rightarrow> ''undefined'' | Some x \<Rightarrow> x)"

definition op_name :: "remote_op \<Rightarrow> string" where
  "op_name opn = (case opn of CreateNodes \<Rightarrow> ''createNodes''
     | CreateDependencies \<Rightarrow> ''createDependencies''
     | ProcessProjectGraph \<Rightarrow> ''processProjectGraph'')"

text \<open>
  \<open>pluginName + ':createNodes:' + performance.now()\<close>; \<open>now\<close> is the text the
  concatenation gives for the number \<open>performance.now()\<close> returned.
\<close>

definition tx_of :: "string option \<Rightarrow> remote_op \<Rightarrow> string \<Rightarrow> tx" where
  "tx_of pn opn now = js_string pn @ '':'' @ op_name opn @ '':'' @ now"

subsection \<open>registerPendingPromise\<close>

definition send :: "request \<Rightarrow> pool \<Rightarrow> pool" where
  "send req s = s\<lparr>trace := trace s @ [Sent req]\<rparr>"

text \<open>
  The executor of \<open>new Promise\<close> runs at once: it keeps \<open>res\<close> and \<open>rej\<close> and calls
  \<open>callback\<close>. Then \<open>finally\<close> is chained, then \<open>pending.set\<close> runs.
\<close>

definition registerPendingPromise :: "tx \<Rightarrow> (pool \<Rightarrow> pool) \<Rightarrow> pool \<Rightarrow> pool" where
  "registerPendingPromise t callback s =
     (let p = length (promises s);
          s1 = s\<lparr>promises := promises s @ [\<lparr>tx_id = t, outcome = Pending\<rparr>]\<rparr>;
          s2 = callback s1
      in s2\<lparr>pending := AList.update t p (pending s2),
            trace := trace s2 @ [Registered t p]\<rparr>)"

text \<open>
  \<open>res\<close> and \<open>rej\<close> of a promise have an effect on a pending promise only; settling it
  queues its \<open>finally\<close> callback.
\<close>

definition settle :: "nat \<Rightarrow> outcome \<Rightarrow> pool \<Rightarrow> pool" where
  "settle p oc s =
     (if p < length (promises s) \<and> outcome (promises s ! p) = Pending
      then s\<lparr>promises := (promises s)[p := (promises s ! p)\<lparr>outcome := oc\<rparr>],
             finallyQueue := finallyQueue s @ [tx_id (promises s ! p)]\<rparr>
      else s)"

definition resolver :: "nat \<Rightarrow> json \<Rightarrow> pool \<Rightarrow> pool" where
  "resolver p v s = settle p (Fulfilled v) (s\<lparr>trace := trace s @ [Resolver p v]\<rparr>)"

definition rejector :: "nat \<Rightarrow> rejection \<Rightarrow> pool \<Rightarrow> pool" where
  "rejector p e s = settle p (Rejected e) (s\<lparr>trace := trace s @ [Rejector p e]\<rparr>)"

subsection \<open>createWorkerHandler\<close>

definition truthy :: "string option \<Rightarrow> bool" where
  "truthy v = (case v of None \<Rightarrow> False | Some x \<Rightarrow> x \<noteq> [])"

definition mkRemotePlugin :: "string \<Rightarrow> string option \<Rightarrow> bool \<Rightarrow> bool \<Rightarrow> remote_plugin" where
  "mkRemotePlugin nm pat hasDeps hasGraph =
     \<lparr>name = nm,
      createNodes = (if truthy pat then Some (the pat, CreateNodes) else None),
      createDependencies = (if hasDeps then Some CreateDependencies else None),
      processProjectGraph = (if hasGraph then Some ProcessProjectGraph else None)\<rparr>"

definition onload :: "remote_plugin \<Rightarrow> pool \<Rightarrow> pool" where
  "onload h s = (case loadPromise s of LoadPending \<Rightarrow> s\<lparr>loadPromise := LoadResolved h\<rparr> | _ \<Rightarrow> s)"

definition onloadError :: "json \<Rightarrow> pool \<Rightarrow> pool" where
  "onloadError e s = (case loadPromise s of LoadPending \<Rightarrow> s\<lparr>loadPromise := LoadRejected e\<rparr> | _ \<Rightarrow> s)"

text \<open>The three result handlers have the same body.\<close>

definition opResult :: "tx \<Rightarrow> op_result \<Rightarrow> pool \<Rightarrow> thrown + pool" where
  "opResult t r s =
     (case map_of (pending s) t of
        None \<Rightarrow> Inl DestructureUndefined
      | Some p \<Rightarrow> Inr (case r of OpSuccess v \<Rightarrow> resolver p v s
                              | OpFailure e \<Rightarrow> rejector p (Reported e) s))"

definition workerHandler :: "worker_result \<Rightarrow> pool \<Rightarrow> thrown + pool" where
  "workerHandler m s =
     (case m of
        LoadResult (LoadSuccess nm pat hasDeps hasGraph) \<Rightarrow>
          Inr (onload (mkRemotePlugin nm pat hasDeps hasGraph)
                 (s\<lparr>pluginName := Some nm,
                    pluginNames := AList.update (pid s) nm (pluginNames s)\<rparr>))
      | LoadResult (LoadFailure e) \<Rightarrow> Inr (onloadError e s)
      | CreateDependenciesResult t r \<Rightarrow> opResult t r s
      | CreateNodesResult t r \<Rightarrow> opResult t r s
      | ProcessProjectGraphResult t r \<Rightarrow> opResult t r s)"

text \<open>The closures of the handle: each reads \<open>pluginName\<close> and the clock when called.\<close>

definition callOp :: "remote_op \<Rightarrow> json \<Rightarrow> string \<Rightarrow> pool \<Rightarrow> pool" where
  "callOp opn args now s =
     (let t = tx_of (pluginName s) opn now
      in registerPendingPromise t (send (OpRequest opn args t)) s)"

definition operation :: "remote_plugin \<Rightarrow> remote_op \<Rightarrow> remote_op option" where
  "operation h opn = (case opn of CreateNodes \<Rightarrow> map_option snd (createNodes h)
     | CreateDependencies \<Rightarrow> createDependencies h
     | ProcessProjectGraph \<Rightarrow> processProjectGraph h)"

definition invoke :: "remote_op \<Rightarrow> json \<Rightarrow> string \<Rightarrow> pool \<Rightarrow> thrown + pool" where
  "invoke opn args now s =
     (case loadPromise s of
        LoadResolved h \<Rightarrow>
          (case operation h opn of None \<Rightarrow> Inl NotAFunction
           | Some f \<Rightarrow> Inr (callOp f args now s))
      | _ \<Rightarrow> Inl NoHandle)"

subsection \<open>createWorkerExitHandler\<close>

definition exitMessage :: "pool \<Rightarrow> string" where
  "exitMessage s =
     ''Plugin worker '' @
     (case map_of (pluginNames s) (pid s) of Some n \<Rightarrow> n | None \<Rightarrow> show_nat (pid s)) @
     '' exited unexpectedly with code '' @ show_exitCode (exitCode s)"

text \<open>The loop over the entries of \<open>pendingPromises\<close>.\<close>

fun rejectEach :: "(tx \<times> nat) list \<Rightarrow> pool \<Rightarrow> pool" where
  "rejectEach [] s = s"
| "rejectEach ((t, p) # al) s =
     rejectEach al (rejector p (ExitedUnexpectedly (exitMessage s)) s)"

definition exitHandler :: "pool \<Rightarrow> pool" where
  "exitHandler s = rejectEach (pending s) s"

text \<open>The process exits with a code, or null; the \<open>exit\<close> listeners run.\<close>

definition onExit :: "int option \<Rightarrow> pool \<Rightarrow> pool" where
  "onExit c s =
     (let s1 = s\<lparr>exited := True, exitCode := c\<rparr>
      in if exitListener s1 then exitHandler s1 else s1)"

subsection \<open>loadRemoteNxPlugin and shutdownPluginWorker\<close>

definition loadRemoteNxPlugin :: "nat \<Rightarrow> json \<Rightarrow> json \<Rightarrow> string list \<Rightarrow> pool" where
  "loadRemoteNxPlugin wpid plugin root cache =
     \<lparr>pid = wpid, exitCode = None, exited = False, killed = False, exitListener = True,
      pluginName = None, pending = [], loadPromise = LoadPending, pluginNames = [],
      cleanupFunctions = [wpid], nxPluginCache = cache, promises = [],
      finallyQueue = [], shutdownWaits = [], trace = [Sent (Load plugin root)]\<rparr>"

text \<open>
  \<open>shutdownPluginWorker\<close> up to its \<open>await\<close>: the cache is cleared, \<open>Promise.all\<close> takes
  the promises registered now, and the call is suspended.
\<close>

definition shutdownPluginWorker :: "pool \<Rightarrow> pool" where
  "shutdownPluginWorker s =
     (let ps = map snd (pending s)
      in s\<lparr>nxPluginCache := [],
            shutdownWaits := shutdownWaits s @ [ps],
            trace := trace s @ [CacheCleared, Awaiting ps]\<rparr>)"

definition cleanupFunction :: "pool \<Rightarrow> pool" where
  "cleanupFunction s =
     shutdownPluginWorker (s\<lparr>exitListener := False, trace := trace s @ [OffExit]\<rparr>)"

text \<open>The shutdown function that \<open>loadRemoteNxPlugin\<close> returns.\<close>

definition shutdownFn :: "pool \<Rightarrow> pool" where
  "shutdownFn s =
     (let s1 = cleanupFunction s
      in s1\<lparr>cleanupFunctions := removeAll (pid s1) (cleanupFunctions s1)\<rparr>)"

text \<open>\<open>worker.kill('SIGINT')\<close>: the signal goes out while the process handle exists.\<close>

definition kill :: "pool \<Rightarrow> pool" where
  "kill s = s\<lparr>killed := (killed s \<or> \<not> exited s), trace := trace s @ [Kill]\<rparr>"

subsection \<open>The microtasks of a turn\<close>

primrec delete_keys :: "tx list \<Rightarrow> (tx \<times> nat) list \<Rightarrow> (tx \<times> nat) list" where
  "delete_keys [] al = al"
| "delete_keys (k # ks) al = delete_keys ks (AList.delete k al)"

text \<open>Each queued \<open>finally\<close> callback runs \<open>pending.delete(tx)\<close>.\<close>

definition runFinally :: "pool \<Rightarrow> pool" where
  "runFinally s =
     s\<lparr>pending := delete_keys (finallyQueue s) (pending s),
       trace := trace s @ map Deleted (finallyQueue s),
       finallyQueue := []\<rparr>"

definition is_fulfilled :: "txn list \<Rightarrow> nat \<Rightarrow> bool" where
  "is_fulfilled ps p = (p < length ps \<and> (case outcome (ps ! p) of Fulfilled v \<Rightarrow> True | _ \<Rightarrow> False))"

definition is_rejected :: "txn list \<Rightarrow> nat \<Rightarrow> bool" where
  "is_rejected ps p = (p < length ps \<and> (case outcome (ps ! p) of Rejected e \<Rightarrow> True | _ \<Rightarrow> False))"

text \<open>
  \<open>Promise.all\<close> rejects as soon as one of its promises is rejected, and is fulfilled
  when all of them are. A rejected \<open>await\<close> throws inside the async function, which
  ends there; a fulfilled one goes on to \<open>worker.kill\<close>.
\<close>

definition some_rejected :: "txn list \<Rightarrow> nat list \<Rightarrow> bool" where
  "some_rejected ps w = list_ex (is_rejected ps) w"

definition all_fulfilled :: "txn list \<Rightarrow> nat list \<Rightarrow> bool" where
  "all_fulfilled ps w = (\<not> some_rejected ps w \<and> list_all (is_fulfilled ps) w)"

definition still_waiting :: "txn list \<Rightarrow> nat list \<Rightarrow> bool" where
  "still_waiting ps w = (\<not> some_rejected ps w \<and> \<not> list_all (is_fulfilled ps) w)"

definition resumeShutdowns :: "pool \<Rightarrow> pool" where
  "resumeShutdowns s =
     (let ws = shutdownWaits s; ps = promises s;
          s1 = s\<lparr>shutdownWaits := filter (still_waiting ps) ws,
                 trace := trace s @ map AwaitRejected (filter (some_rejected ps) ws)\<rparr>
      in fold (\<lambda>w. kill) (filter (all_fulfilled ps) ws) s1)"

definition drain :: "pool \<Rightarrow> pool" where
  "drain s = resumeShutdowns (runFinally s)"

subsection \<open>Events and runs\<close>

datatype event =
    Invoke remote_op json string
  | Message worker_result
  | Exit "int option"
  | Shutdown

definition listener :: "pool \<Rightarrow> event \<Rightarrow> thrown + pool" where
  "listener s e =
     (case e of
        Invoke opn args now \<Rightarrow> invoke opn args now s
      | Message m \<Rightarrow> workerHandler m s
      | Exit c \<Rightarrow> Inr (onExit c s)
      | Shutdown \<Rightarrow> Inr (shutdownFn s))"

definition step :: "pool \<Rightarrow> event \<Rightarrow> thrown + pool" where
  "step s e = (case listener s e of Inl x \<Rightarrow> Inl x | Inr s' \<Rightarrow> Inr (drain s'))"

fun run :: "pool \<Rightarrow> event list \<Rightarrow> thrown + pool" where
  "run s [] = Inr s"
| "run s (e # es) = (case step s e of Inl x \<Rightarrow> Inl x | Inr s' \<Rightarrow> run s' es)"

subsection \<open>Invariants of the registry\<close>

text \<open>
  \<open>calls p tr\<close> counts the calls of the resolver or the rejecter of promise \<open>p\<close> in a trace.
  \<open>registered\<close>: the keys of the registry are distinct and every entry names a pending
  promise whose \<open>finally\<close> callback holds the entry's key. \<open>settled_once\<close>: a settled
  promise has had exactly one such call, any other none.
\<close>

definition settles :: "nat \<Rightarrow> effect \<Rightarrow> bool" where
  "settles p e = (case e of Resolver q v \<Rightarrow> q = p | Rejector q r \<Rightarrow> q = p | _ \<Rightarrow> False)"

definition calls :: "nat \<Rightarrow> effect list \<Rightarrow> nat" where
  "calls p tr = length (filter (settles p) tr)"

definition registered :: "pool \<Rightarrow> bool" where
  "registered s \<longleftrightarrow>
     distinct (map fst (pending s)) \<and>
     list_all (\<lambda>(t, p). p < length (promises s) \<and> outcome (promises s ! p) = Pending
                 \<and> tx_id (promises s ! p) = t) (pending s)"

definition settled_once :: "pool \<Rightarrow> bool" where
  "settled_once s \<longleftrightarrow>
     (\<forall>p. calls p (trace s) =
        (if p < length (promises s) \<and> outcome (promises s ! p) \<noteq> Pending then 1 else 0))"

definition pool_inv :: "pool \<Rightarrow> bool" where
  "pool_inv s \<longleftrightarrow> finallyQueue s = [] \<and> registered s \<and> settled_once s"

subsection \<open>Notions for the statements\<close>

text \<open>
  The result payload an event delivers, if it is a result message, and the outcome it
  asks for; whether the first \<open>a\<close> of a trace is followed by a \<open>b\<close>; a state between two
  turns, with no \<open>finally\<close> callback queued and every suspended shutdown still waiting;
  a handle whose closures send the request of their own operation.
\<close>

definition result_of :: "event \<Rightarrow> (tx \<times> op_result) option" where
  "result_of e = (case e of
      Message (CreateDependenciesResult t r) \<Rightarrow> Some (t, r)
    | Message (CreateNodesResult t r) \<Rightarrow> Some (t, r)
    | Message (ProcessProjectGraphResult t r) \<Rightarrow> Some (t, r)
    | _ \<Rightarrow> None)"

definition outcome_of :: "op_result \<Rightarrow> outcome" where
  "outcome_of r = (case r of OpSuccess v \<Rightarrow> Fulfilled v | OpFailure e \<Rightarrow> Rejected (Reported e))"

definition precedes :: "effect \<Rightarrow> effect \<Rightarrow> effect list \<Rightarrow> bool" where
  "precedes a b tr = (b \<in> set (dropWhile (\<lambda>x. x \<noteq> a) tr))"

definition quiet :: "pool \<Rightarrow> bool" where
  "quiet s \<longleftrightarrow> finallyQueue s = [] \<and> list_all (still_waiting (promises s)) (shutdownWaits s)"

definition handle_ok :: "pool \<Rightarrow> bool" where
  "handle_ok s = (case loadPromise s of
      LoadResolved h \<Rightarrow>
        list_all (\<lambda>opn. operation h opn = None \<or> operation h opn = Some opn)
          [CreateNodes, CreateDependencies, ProcessProjectGraph]
    | _ \<Rightarrow> True)"

text \<open>
  Two states are the same state when they agree on every field other than the trace,
  the suspended shutdowns being compared by the promise lists they wait for and not by
  how many of them wait for each list. Two results are the same outcome when they are
  the same exception or the same state.
\<close>

definition same_state :: "pool \<Rightarrow> pool \<Rightarrow> bool" where
  "same_state a b \<longleftrightarrow>
     pid a = pid b \<and> exitCode a = exitCode b \<and> exited a = exited b \<and> killed a = killed b \<and>
     exitListener a = exitListener b \<and> pluginName a = pluginName b \<and> pending a = pending b \<and>
     loadPromise a = loadPromise b \<and> pluginNames a = pluginNames b \<and>
     cleanupFunctions a = cleanupFunctions b \<and> nxPluginCache a = nxPluginCache b \<and>
     promises a = promises b \<and> finallyQueue a = finallyQueue b \<and>
     set (shutdownWaits a) = set (shutdownWaits b)"

definition same_outcome :: "thrown + pool \<Rightarrow> thrown + pool \<Rightarrow> bool" where
  "same_outcome x y =
     (case x of Inl a \<Rightarrow> (case y of Inl b \<Rightarrow> a = b | Inr t \<Rightarrow> False)
              | Inr s \<Rightarrow> (case y of Inl b \<Rightarrow> False | Inr t \<Rightarrow> same_state s t))"

section \<open>Properties\<close>

subsection \<open>The microtasks and the exit loop\<close>

lemma fold_kill:
  "fold (\<lambda>w. kill) ws s = s\<lparr>killed := (killed s \<or> (ws \<noteq> [] \<and> \<not> exited s)), trace := trace s @ replicate (length ws) Kill\<rparr>"
proof (induction ws arbitrary: s)
  case Nil
  show ?case by simp
next
  case (Cons w ws)
  have "fold (\<lambda>w. kill) (w # ws) s = fold (\<lambda>w. kill) ws (kill s)" by simp
  also have "\<dots> = (kill s)\<lparr>killed := (killed (kill s) \<or> (ws \<noteq> [] \<and> \<not> exited (kill s))),
       trace := trace (kill s) @ replicate (length ws) Kill\<rparr>" by (rule Cons.IH)
  also have "\<dots> = s\<lparr>killed := (killed s \<or> (w # ws \<noteq> [] \<and> \<not> exited s)),
       trace := trace s @ replicate (length (w # ws)) Kill\<rparr>"
    by (auto simp add: kill_def)
  finally show ?case .
qed

lemma resumeShutdowns_eq:
  "resumeShutdowns s = s\<lparr>shutdownWaits := filter (still_waiting (promises s)) (shutdownWaits s),
      killed := (killed s \<or> (filter (all_fulfilled (promises s)) (shutdownWaits s) \<noteq> [] \<and> \<not> exited s)),
      trace := trace s @ map AwaitRejected (filter (some_rejected (promises s)) (shutdownWaits s))
                @ replicate (length (filter (all_fulfilled (promises s)) (shutdownWaits s))) Kill\<rparr>"
  by (simp add: resumeShutdowns_def Let_def fold_kill)

lemma exitMessage_rejector: "exitMessage (rejector p e s) = exitMessage s"
  by (simp add: exitMessage_def rejector_def settle_def split: option.splits)

lemma rejectEach_frame:
  "pid (rejectEach al s) = pid s \<and> exitCode (rejectEach al s) = exitCode s \<and> exited (rejectEach al s) = exited s
   \<and> killed (rejectEach al s) = killed s \<and> exitListener (rejectEach al s) = exitListener s
   \<and> pluginName (rejectEach al s) = pluginName s \<and> pending (rejectEach al s) = pending s
   \<and> loadPromise (rejectEach al s) = loadPromise s \<and> pluginNames (rejectEach al s) = pluginNames s
   \<and> cleanupFunctions (rejectEach al s) = cleanupFunctions s \<and> nxPluginCache (rejectEach al s) = nxPluginCache s
   \<and> shutdownWaits (rejectEach al s) = shutdownWaits s \<and> length (promises (rejectEach al s)) = length (promises s)
   \<and> exitMessage (rejectEach al s) = exitMessage s
   \<and> trace (rejectEach al s) = trace s @ map (\<lambda>(t, p). Rejector p (ExitedUnexpectedly (exitMessage s))) al"
proof (induction al arbitrary: s)
  case Nil
  show ?case by simp
next
  case (Cons a al)
  obtain t p where a: "a = (t, p)" by (cases a)
  show ?case unfolding a rejectEach.simps
    using Cons.IH[of "rejector p (ExitedUnexpectedly (exitMessage s)) s"]
    by (simp add: exitMessage_rejector) (simp add: rejector_def settle_def)
qed

lemma rejectEach_promises:
  "i < length (promises s) \<Longrightarrow>
   promises (rejectEach al s) ! i =
     (if i \<in> snd ` set al \<and> outcome (promises s ! i) = Pending
      then (promises s ! i)\<lparr>outcome := Rejected (ExitedUnexpectedly (exitMessage s))\<rparr>
      else promises s ! i)"
proof (induction al arbitrary: s)
  case Nil
  show ?case by simp
next
  case (Cons a al)
  obtain t p where a: "a = (t, p)" by (cases a)
  let ?s1 = "rejector p (ExitedUnexpectedly (exitMessage s)) s"
  have len: "i < length (promises ?s1)" using Cons.prems by (simp add: rejector_def settle_def)
  have p1: "promises ?s1 ! i = (if i = p \<and> outcome (promises s ! i) = Pending
      then (promises s ! i)\<lparr>outcome := Rejected (ExitedUnexpectedly (exitMessage s))\<rparr>
      else promises s ! i)"
    using Cons.prems by (auto simp add: rejector_def settle_def nth_list_update)
  show ?case unfolding a rejectEach.simps
    using Cons.IH[OF len] p1 by (auto simp add: exitMessage_rejector)
qed

lemma rejectEach_queue:
  "list_all (\<lambda>(t, p). p < length (promises s) \<and> outcome (promises s ! p) = Pending
                 \<and> tx_id (promises s ! p) = t) al \<Longrightarrow> distinct (map snd al) \<Longrightarrow>
   finallyQueue (rejectEach al s) = finallyQueue s @ map fst al"
proof (induction al arbitrary: s)
  case Nil
  show ?case by simp
next
  case (Cons a al)
  obtain t p where a: "a = (t, p)" by (cases a)
  let ?s1 = "rejector p (ExitedUnexpectedly (exitMessage s)) s"
  have hd: "p < length (promises s)" "outcome (promises s ! p) = Pending" "tx_id (promises s ! p) = t"
    using Cons.prems(1) by (simp_all add: a)
  have q1: "finallyQueue ?s1 = finallyQueue s @ [t]"
    using hd by (simp add: rejector_def settle_def)
  have pn: "\<And>t'. (t', p) \<notin> set al" using Cons.prems(2) by (force simp add: a)
  have rest: "list_all (\<lambda>(t, p). p < length (promises ?s1) \<and> outcome (promises ?s1 ! p) = Pending
                 \<and> tx_id (promises ?s1 ! p) = t) al"
    using Cons.prems(1) pn hd
    by (auto simp add: a list_all_iff rejector_def settle_def nth_list_update)
  have d: "distinct (map snd al)" using Cons.prems(2) by simp
  show ?case unfolding a rejectEach.simps
    using Cons.IH[OF rest d] q1 by simp
qed

lemma delete_keys_filter: "delete_keys ks al = filter (\<lambda>(k, v). k \<notin> set ks) al"
  by (induction ks arbitrary: al) (auto simp add: AList.delete_eq intro: filter_cong)

lemma delete_keys_all: "delete_keys (map fst al) al = []"
  by (force simp add: delete_keys_filter filter_empty_conv)


lemma calls_append [simp]: "calls p (a @ b) = calls p a + calls p b"
  by (simp add: calls_def)

lemma calls_Nil [simp]: "calls p [] = 0"
  by (simp add: calls_def)

lemma calls_Cons: "calls p (e # tr) = (if settles p e then 1 else 0) + calls p tr"
  by (simp add: calls_def)

lemma calls_quiet [simp]:
  "calls p (map Deleted ks) = 0" "calls p (map (Deleted \<circ> f) xs) = 0"
  "calls p (map AwaitRejected ws) = 0" "calls p (replicate n Kill) = 0"
  by (simp_all add: calls_def settles_def filter_empty_conv)

lemma calls_rejectors:
  "distinct (map snd al) \<Longrightarrow>
   calls q (map (\<lambda>(t, p). Rejector p e) al) = (if q \<in> snd ` set al then 1 else 0)"
  by (induction al) (auto simp add: calls_Cons settles_def image_iff)

lemma registered_distinct_snd:
  assumes "registered s"
  shows "distinct (map snd (pending s))"
proof -
  have d: "distinct (pending s)"
    using assms distinct_map by (auto simp add: registered_def)
  have "inj_on snd (set (pending s))"
  proof (rule inj_onI)
    fix x y assume x: "x \<in> set (pending s)" and y: "y \<in> set (pending s)" and e: "snd x = snd y"
    have "tx_id (promises s ! snd x) = fst x" "tx_id (promises s ! snd y) = fst y"
      using assms x y by (auto simp add: registered_def list_all_iff)
    then show "x = y" using e by (simp add: prod_eq_iff)
  qed
  then show ?thesis using d by (simp add: distinct_map)
qed


lemma inv_init: "pool_inv (loadRemoteNxPlugin wpid plugin root cache)"
  by (simp add: pool_inv_def registered_def settled_once_def loadRemoteNxPlugin_def calls_Cons settles_def)

lemma inv_resumeShutdowns: "pool_inv (resumeShutdowns s) = pool_inv s"
  by (simp add: resumeShutdowns_eq pool_inv_def registered_def settled_once_def)

lemma callOp_eq:
  "callOp f args now s =
     s\<lparr>promises := promises s @ [\<lparr>tx_id = tx_of (pluginName s) f now, outcome = Pending\<rparr>],
       pending := AList.update (tx_of (pluginName s) f now) (length (promises s)) (pending s),
       trace := trace s @ [Sent (OpRequest f args (tx_of (pluginName s) f now)),
                           Registered (tx_of (pluginName s) f now) (length (promises s))]\<rparr>"
  by (simp add: callOp_def registerPendingPromise_def send_def Let_def)

lemma set_update_cases:
  "distinct (map fst al) \<Longrightarrow> (k', v') \<in> set (AList.update k v al) \<Longrightarrow>
   (k' = k \<and> v' = v) \<or> (k' \<noteq> k \<and> (k', v') \<in> set al)"
  by (induction al) (force split: if_splits)+

lemma inv_callOp:
  assumes "pool_inv s"
  shows "pool_inv (runFinally (callOp f args now s))"
proof -
  let ?t = "tx_of (pluginName s) f now"
  let ?n = "length (promises s)"
  have q: "finallyQueue s = []" and r: "registered s" and o: "settled_once s"
    using assms by (simp_all add: pool_inv_def)
  have reg: "registered (runFinally (callOp f args now s))"
    unfolding registered_def
  proof (intro conjI)
    show "distinct (map fst (pending (runFinally (callOp f args now s))))"
      using r q by (simp add: runFinally_def callOp_eq registered_def distinct_update)
    show "list_all (\<lambda>(t, p). p < length (promises (runFinally (callOp f args now s))) \<and>
             outcome (promises (runFinally (callOp f args now s)) ! p) = Pending \<and>
             tx_id (promises (runFinally (callOp f args now s)) ! p) = t)
           (pending (runFinally (callOp f args now s)))"
      unfolding list_all_iff
    proof (rule ballI)
      fix x assume "x \<in> set (pending (runFinally (callOp f args now s)))"
      then have x: "x \<in> set (AList.update ?t ?n (pending s))"
        using q by (simp add: runFinally_def callOp_eq)
      obtain k v where kv: "x = (k, v)" by (cases x)
      have "distinct (map fst (pending s))" using r by (simp add: registered_def)
      from this x kv set_update_cases[of "pending s" k v ?t ?n]
      consider "k = ?t" "v = ?n" | "(k, v) \<in> set (pending s)" by blast
      then show "case x of (t, p) \<Rightarrow> p < length (promises (runFinally (callOp f args now s))) \<and>
             outcome (promises (runFinally (callOp f args now s)) ! p) = Pending \<and>
             tx_id (promises (runFinally (callOp f args now s)) ! p) = t"
      proof cases
        case 1
        then show ?thesis by (simp add: kv runFinally_def callOp_eq)
      next
        case 2
        then have "v < ?n \<and> outcome (promises s ! v) = Pending \<and> tx_id (promises s ! v) = k"
          using r by (auto simp add: registered_def list_all_iff)
        then show ?thesis by (simp add: kv runFinally_def callOp_eq nth_append)
      qed
    qed
  qed
  have once: "settled_once (runFinally (callOp f args now s))"
    using o q
    by (auto simp add: settled_once_def runFinally_def callOp_eq calls_Cons settles_def nth_append
        split: if_splits)
  show ?thesis using reg once q by (simp add: pool_inv_def runFinally_def callOp_eq)
qed


lemma inv_settled:
  assumes i: "pool_inv s" and m: "map_of (pending s) t = Some p"
    and oc: "oc \<noteq> Pending" and eff: "\<And>q. settles q eff = (q = p)"
  shows "pool_inv (runFinally (settle p oc (s\<lparr>trace := trace s @ [eff]\<rparr>)))"
proof -
  have q: "finallyQueue s = []" and r: "registered s" and o: "settled_once s"
    using i by (simp_all add: pool_inv_def)
  have mem: "(t, p) \<in> set (pending s)" using m by (rule map_of_SomeD)
  have p: "p < length (promises s)" "outcome (promises s ! p) = Pending" "tx_id (promises s ! p) = t"
    using r mem by (auto simp add: registered_def list_all_iff)
  let ?s1 = "runFinally (settle p oc (s\<lparr>trace := trace s @ [eff]\<rparr>))"
  have s1: "?s1 = s\<lparr>trace := trace s @ [eff, Deleted t],
                      promises := (promises s)[p := (promises s ! p)\<lparr>outcome := oc\<rparr>],
                      finallyQueue := [],
                      pending := AList.delete t (pending s)\<rparr>"
    using p q by (simp add: settle_def runFinally_def)
  have other: "\<And>k v. (k, v) \<in> set (AList.delete t (pending s)) \<Longrightarrow> v \<noteq> p \<and> (k, v) \<in> set (pending s)"
  proof -
    fix k v assume "(k, v) \<in> set (AList.delete t (pending s))"
    then have kv: "(k, v) \<in> set (pending s)" "k \<noteq> t" by (auto simp add: AList.delete_eq)
    then have "tx_id (promises s ! v) = k" using r by (auto simp add: registered_def list_all_iff)
    then show "v \<noteq> p \<and> (k, v) \<in> set (pending s)" using kv p by auto
  qed
  have reg: "registered ?s1"
    unfolding s1 registered_def
  proof (intro conjI)
    show "distinct (map fst (pending (s\<lparr>trace := trace s @ [eff, Deleted t],
                      promises := (promises s)[p := (promises s ! p)\<lparr>outcome := oc\<rparr>],
                      finallyQueue := [],
                      pending := AList.delete t (pending s)\<rparr>)))"
      using r by (simp add: registered_def distinct_delete)
    show "list_all (\<lambda>(t', p'). p' < length (promises (s\<lparr>trace := trace s @ [eff, Deleted t],
                      promises := (promises s)[p := (promises s ! p)\<lparr>outcome := oc\<rparr>],
                      finallyQueue := [],
                      pending := AList.delete t (pending s)\<rparr>)) \<and>
             outcome (promises (s\<lparr>trace := trace s @ [eff, Deleted t],
                      promises := (promises s)[p := (promises s ! p)\<lparr>outcome := oc\<rparr>],
                      finallyQueue := [],
                      pending := AList.delete t (pending s)\<rparr>) ! p') = Pending \<and>
             tx_id (promises (s\<lparr>trace := trace s @ [eff, Deleted t],
                      promises := (promises s)[p := (promises s ! p)\<lparr>outcome := oc\<rparr>],
                      finallyQueue := [],
                      pending := AList.delete t (pending s)\<rparr>) ! p') = t')
           (pending (s\<lparr>trace := trace s @ [eff, Deleted t],
                      promises := (promises s)[p := (promises s ! p)\<lparr>outcome := oc\<rparr>],
                      finallyQueue := [],
                      pending := AList.delete t (pending s)\<rparr>))"
      using other r by (fastforce simp add: list_all_iff registered_def nth_list_update)
  qed
  have once: "settled_once ?s1"
    unfolding s1 using o p oc eff
    by (auto simp add: settled_once_def calls_Cons settles_def nth_list_update split: if_splits)
  show ?thesis using reg once by (simp add: pool_inv_def s1)
qed

lemma inv_opResult:
  assumes "pool_inv s" and "opResult t r s = Inr s1"
  shows "pool_inv (runFinally s1)"
proof -
  obtain p where m: "map_of (pending s) t = Some p"
    using assms(2) by (auto simp add: opResult_def split: option.splits)
  show ?thesis
  proof (cases r)
    case (OpSuccess v)
    then have "s1 = settle p (Fulfilled v) (s\<lparr>trace := trace s @ [Resolver p v]\<rparr>)"
      using assms(2) m by (simp add: opResult_def resolver_def)
    then show ?thesis using inv_settled[OF assms(1) m, of "Fulfilled v" "Resolver p v"]
      by (auto simp add: settles_def)
  next
    case (OpFailure e)
    then have "s1 = settle p (Rejected (Reported e)) (s\<lparr>trace := trace s @ [Rejector p (Reported e)]\<rparr>)"
      using assms(2) m by (simp add: opResult_def rejector_def)
    then show ?thesis using inv_settled[OF assms(1) m, of "Rejected (Reported e)" "Rejector p (Reported e)"]
      by (auto simp add: settles_def)
  qed
qed

lemma inv_rejectEach:
  assumes i: "pool_inv s"
  shows "pool_inv (runFinally (rejectEach (pending s) s))"
proof -
  have q: "finallyQueue s = []" and r: "registered s" and o: "settled_once s"
    using i by (simp_all add: pool_inv_def)
  let ?al = "pending s"
  let ?r = "rejectEach ?al s"
  have la: "list_all (\<lambda>(t, p). p < length (promises s) \<and> outcome (promises s ! p) = Pending
                 \<and> tx_id (promises s ! p) = t) ?al"
    using r by (simp add: registered_def)
  have d: "distinct (map snd ?al)" using r by (rule registered_distinct_snd)
  have fq: "finallyQueue ?r = map fst ?al"
    using rejectEach_queue[OF la d] q by simp
  have pend: "pending (runFinally ?r) = []"
    using rejectEach_frame[of ?al s] fq by (simp add: runFinally_def delete_keys_all)
  have len: "length (promises (runFinally ?r)) = length (promises s)"
    using rejectEach_frame[of ?al s] by (simp add: runFinally_def)
  have tr: "trace (runFinally ?r) =
      trace s @ map (\<lambda>(t, p). Rejector p (ExitedUnexpectedly (exitMessage s))) ?al @ map Deleted (map fst ?al)"
    using rejectEach_frame[of ?al s] fq by (simp add: runFinally_def)
  have reg: "registered (runFinally ?r)"
    by (simp add: registered_def pend)
  have once: "settled_once (runFinally ?r)"
    unfolding settled_once_def
  proof
    fix x
    have c: "calls x (trace (runFinally ?r)) = calls x (trace s) + (if x \<in> snd ` set ?al then 1 else 0)"
      unfolding tr by (simp add: calls_rejectors[OF d])
    have c0: "calls x (trace s) = (if x < length (promises s) \<and> outcome (promises s ! x) \<noteq> Pending then 1 else 0)"
      using o by (simp add: settled_once_def)
    show "calls x (trace (runFinally ?r)) =
         (if x < length (promises (runFinally ?r)) \<and> outcome (promises (runFinally ?r) ! x) \<noteq> Pending
          then 1 else 0)"
    proof (cases "x \<in> snd ` set ?al")
      case True
      then have px: "x < length (promises s)" "outcome (promises s ! x) = Pending"
        using la by (auto simp add: list_all_iff)
      have "promises (runFinally ?r) ! x =
          (promises s ! x)\<lparr>outcome := Rejected (ExitedUnexpectedly (exitMessage s))\<rparr>"
        using rejectEach_promises[OF px(1), of ?al] True px(2) by (simp add: runFinally_def)
      then show ?thesis using c c0 px True len by simp
    next
      case False
      show ?thesis
      proof (cases "x < length (promises s)")
        case True
        have "promises (runFinally ?r) ! x = promises s ! x"
          using rejectEach_promises[OF True, of ?al] False by (simp add: runFinally_def)
        then show ?thesis using c c0 False len by simp
      next
        case False
        then show ?thesis using c c0 \<open>x \<notin> snd ` set ?al\<close> len by simp
      qed
    qed
  qed
  have "finallyQueue (runFinally ?r) = []" by (simp add: runFinally_def)
  then show ?thesis using reg once by (simp add: pool_inv_def)
qed

lemma inv_frame:
  assumes "pool_inv s" and "finallyQueue s' = finallyQueue s" and "pending s' = pending s"
    and "promises s' = promises s" and "\<And>p. calls p (trace s') = calls p (trace s)"
  shows "pool_inv s'"
  using assms by (simp add: pool_inv_def registered_def settled_once_def)

lemma runFinally_idle: "finallyQueue s = [] \<Longrightarrow> runFinally s = s"
  by (simp add: runFinally_def)

lemma inv_shutdownFn:
  assumes i: "pool_inv s"
  shows "pool_inv (runFinally (shutdownFn s))"
proof -
  have q: "finallyQueue s = []" using i by (simp add: pool_inv_def)
  show ?thesis
    by (rule inv_frame[OF i])
      (simp_all add: q runFinally_def shutdownFn_def cleanupFunction_def shutdownPluginWorker_def Let_def
        calls_Cons settles_def)
qed

lemma inv_load:
  assumes i: "pool_inv s" and w: "workerHandler (LoadResult lr) s = Inr s1"
  shows "pool_inv (runFinally s1)"
proof -
  have q: "finallyQueue s = []" using i by (simp add: pool_inv_def)
  have f: "finallyQueue s1 = finallyQueue s \<and> pending s1 = pending s \<and> promises s1 = promises s
      \<and> trace s1 = trace s"
    using w
    by (auto simp add: workerHandler_def onload_def onloadError_def
        split: load_result.splits load_outcome.splits)
  show ?thesis
    by (rule inv_frame[OF i]) (simp_all add: f q runFinally_def)
qed

lemma inv_onExit: "pool_inv s \<Longrightarrow> pool_inv (runFinally (onExit c s))"
proof -
  assume i: "pool_inv s"
  let ?s1 = "s\<lparr>exited := True, exitCode := c\<rparr>"
  have i1: "pool_inv ?s1" using i by (rule inv_frame) simp_all
  show ?thesis
  proof (cases "exitListener s")
    case True
    then show ?thesis using inv_rejectEach[OF i1] by (simp add: onExit_def Let_def exitHandler_def)
  next
    case False
    then show ?thesis using i1 by (simp add: onExit_def Let_def runFinally_idle pool_inv_def)
  qed
qed

lemma inv_step:
  assumes "pool_inv s" and "step s e = Inr s'"
  shows "pool_inv s'"
proof -
  obtain s1 where l: "listener s e = Inr s1" and s': "s' = drain s1"
    using assms(2) by (auto simp add: step_def split: sum.splits)
  have "pool_inv (runFinally s1)"
  proof (cases e)
    case (Invoke opn args now)
    then obtain f where "s1 = callOp f args now s"
      using l by (auto simp add: listener_def invoke_def split: load_outcome.splits option.splits)
    then show ?thesis using inv_callOp[OF assms(1)] by simp
  next
    case (Message m)
    then show ?thesis using l assms(1)
      by (cases m) (auto simp add: listener_def workerHandler_def[where m="CreateDependenciesResult t r" for t r]
          workerHandler_def[where m="CreateNodesResult t r" for t r]
          workerHandler_def[where m="ProcessProjectGraphResult t r" for t r]
          intro: inv_load inv_opResult)
  next
    case (Exit c)
    then show ?thesis using l inv_onExit[OF assms(1)] by (auto simp add: listener_def)
  next
    case Shutdown
    then show ?thesis using l inv_shutdownFn[OF assms(1)] by (auto simp add: listener_def)
  qed
  then show ?thesis by (simp add: s' drain_def inv_resumeShutdowns)
qed

lemma inv_run: "pool_inv s \<Longrightarrow> run s es = Inr s' \<Longrightarrow> pool_inv s'"
  by (induction es arbitrary: s) (auto split: sum.splits intro: inv_step)


subsection \<open>Evaluation and the load promise\<close>

lemmas pool_eval = loadRemoteNxPlugin_def step_def listener_def workerHandler_def onload_def
  onloadError_def mkRemotePlugin_def truthy_def drain_def runFinally_def resumeShutdowns_def
  invoke_def operation_def callOp_def tx_of_def js_string_def op_name_def
  registerPendingPromise_def send_def onExit_def exitHandler_def rejector_def resolver_def
  settle_def exitMessage_def show_exitCode_def show_int_def show_nat.simps digit_def
  still_waiting_def some_rejected_def all_fulfilled_def is_fulfilled_def is_rejected_def Let_def
  opResult_def shutdownFn_def cleanupFunction_def shutdownPluginWorker_def kill_def

lemma loadPromise_listener:
  "listener s e = Inr s' \<Longrightarrow> loadPromise s = LoadResolved h \<Longrightarrow> loadPromise s' = LoadResolved h"
  by (cases e)
    (auto simp add: listener_def invoke_def callOp_eq workerHandler_def onload_def onloadError_def
      opResult_def resolver_def rejector_def settle_def onExit_def exitHandler_def rejectEach_frame
      shutdownFn_def cleanupFunction_def shutdownPluginWorker_def Let_def
      split: option.splits worker_result.splits load_result.splits op_result.splits if_splits)

lemma loadPromise_drain: "loadPromise (drain s) = loadPromise s"
  by (simp add: drain_def resumeShutdowns_eq runFinally_def)

lemma loadPromise_step:
  "step s e = Inr s' \<Longrightarrow> loadPromise s = LoadResolved h \<Longrightarrow> loadPromise s' = LoadResolved h"
  by (auto simp add: step_def loadPromise_drain split: sum.splits dest: loadPromise_listener)

lemma loadPromise_run:
  "run s es = Inr s' \<Longrightarrow> loadPromise s = LoadResolved h \<Longrightarrow> loadPromise s' = LoadResolved h"
  by (induction es arbitrary: s) (auto split: sum.splits dest: loadPromise_step)

lemmas pool_eval2 = pool_eval result_of_def outcome_of_def calls_def settles_def

subsection \<open>Causes of a settlement, states between turns, the handle\<close>

lemma promises_drain: "promises (drain s) = promises s"
  by (simp add: drain_def resumeShutdowns_eq runFinally_def)

lemma opResult_promises:
  assumes "opResult t r s = Inr s1" and "p < length (promises s)"
    and "outcome (promises s ! p) = Pending" and "outcome (promises s1 ! p) \<noteq> Pending"
  shows "map_of (pending s) t = Some p \<and> outcome (promises s1 ! p) = outcome_of r"
proof -
  obtain q where m: "map_of (pending s) t = Some q"
    using assms(1) by (auto simp add: opResult_def split: option.splits)
  have s1: "s1 = (case r of OpSuccess v \<Rightarrow> resolver q v s | OpFailure e \<Rightarrow> rejector q (Reported e) s)"
    using assms(1) m by (simp add: opResult_def)
  have "q = p"
  proof (rule ccontr)
    assume "q \<noteq> p"
    then have "promises s1 ! p = promises s ! p"
      unfolding s1 by (cases r) (simp_all add: resolver_def rejector_def settle_def)
    then show False using assms(3,4) by simp
  qed
  moreover have "outcome (promises s1 ! p) = outcome_of r"
    using assms(2,3) \<open>q = p\<close> unfolding s1
    by (cases r) (simp_all add: resolver_def rejector_def settle_def outcome_of_def)
  ultimately show ?thesis using m by simp
qed

lemma settle_cause:
  assumes st: "step s e = Inr s'" and p: "p < length (promises s)"
    and pend: "outcome (promises s ! p) = Pending" and fin: "outcome (promises s' ! p) \<noteq> Pending"
  shows "(\<exists>t r. result_of e = Some (t, r) \<and> map_of (pending s) t = Some p
            \<and> outcome (promises s' ! p) = outcome_of r)
       \<or> (\<exists>c. e = Exit c \<and> exitListener s \<and> p \<in> snd ` set (pending s)
            \<and> outcome (promises s' ! p) =
                Rejected (ExitedUnexpectedly (exitMessage (s\<lparr>exited := True, exitCode := c\<rparr>))))"
proof -
  obtain s1 where l: "listener s e = Inr s1" and s': "s' = drain s1"
    using st by (auto simp add: step_def split: sum.splits)
  have d1: "outcome (promises s1 ! p) \<noteq> Pending" using fin by (simp add: s' promises_drain)
  have eq: "promises s' ! p = promises s1 ! p" by (simp add: s' promises_drain)
  show ?thesis
  proof (cases e)
    case (Invoke opn args now)
    then obtain f where "s1 = callOp f args now s"
      using l by (auto simp add: listener_def invoke_def split: load_outcome.splits option.splits)
    then have "promises s1 ! p = promises s ! p" using p by (simp add: callOp_eq nth_append)
    then show ?thesis using d1 pend by simp
  next
    case (Message m)
    show ?thesis
    proof (cases m)
      case (LoadResult lr)
      then have "promises s1 = promises s"
        using l Message
        by (auto simp add: listener_def workerHandler_def onload_def onloadError_def
            split: load_result.splits load_outcome.splits)
      then show ?thesis using d1 pend by simp
    next
      case (CreateDependenciesResult t r)
      then have "opResult t r s = Inr s1" using l Message by (simp add: listener_def workerHandler_def)
      from opResult_promises[OF this p pend d1] show ?thesis
        using Message CreateDependenciesResult eq by (simp add: result_of_def)
    next
      case (CreateNodesResult t r)
      then have "opResult t r s = Inr s1" using l Message by (simp add: listener_def workerHandler_def)
      from opResult_promises[OF this p pend d1] show ?thesis
        using Message CreateNodesResult eq by (simp add: result_of_def)
    next
      case (ProcessProjectGraphResult t r)
      then have "opResult t r s = Inr s1" using l Message by (simp add: listener_def workerHandler_def)
      from opResult_promises[OF this p pend d1] show ?thesis
        using Message ProcessProjectGraphResult eq by (simp add: result_of_def)
    qed
  next
    case (Exit c)
    let ?s0 = "s\<lparr>exited := True, exitCode := c\<rparr>"
    show ?thesis
    proof (cases "exitListener s")
      case True
      then have s1: "s1 = rejectEach (pending s) ?s0"
        using l Exit by (simp add: listener_def onExit_def exitHandler_def Let_def)
      have p0: "p < length (promises ?s0)" using p by simp
      have "promises s1 ! p =
          (if p \<in> snd ` set (pending s) \<and> outcome (promises s ! p) = Pending
           then (promises s ! p)\<lparr>outcome := Rejected (ExitedUnexpectedly (exitMessage ?s0))\<rparr>
           else promises s ! p)"
        unfolding s1 using rejectEach_promises[OF p0, of "pending s"] by simp
      then show ?thesis using d1 pend True Exit eq by (auto split: if_splits)
    next
      case False
      then have "s1 = ?s0" using l Exit by (simp add: listener_def onExit_def Let_def)
      then show ?thesis using d1 pend by simp
    qed
  next
    case Shutdown
    then have "promises s1 = promises s"
      using l by (auto simp add: listener_def shutdownFn_def cleanupFunction_def shutdownPluginWorker_def Let_def)
    then show ?thesis using d1 pend by simp
  qed
qed

lemma exit_rejects:
  assumes i: "pool_inv s" and l: "exitListener s"
  shows "\<exists>s'. step s (Exit c) = Inr s' \<and> pending s' = [] \<and> length (promises s') = length (promises s)
     \<and> list_all (\<lambda>(t, p). outcome (promises s' ! p) =
          Rejected (ExitedUnexpectedly (exitMessage (s\<lparr>exited := True, exitCode := c\<rparr>)))) (pending s)"
proof -
  let ?s0 = "s\<lparr>exited := True, exitCode := c\<rparr>"
  let ?r = "rejectEach (pending s) ?s0"
  have st: "step s (Exit c) = Inr (drain ?r)"
    using l by (simp add: step_def listener_def onExit_def exitHandler_def Let_def)
  have i0: "pool_inv ?s0" using i by (rule inv_frame) simp_all
  have r0: "registered ?s0" and q0: "finallyQueue ?s0 = []" using i0 by (simp_all add: pool_inv_def)
  have la: "list_all (\<lambda>(t, p). p < length (promises ?s0) \<and> outcome (promises ?s0 ! p) = Pending
                 \<and> tx_id (promises ?s0 ! p) = t) (pending s)"
    using r0 by (simp add: registered_def)
  have d: "distinct (map snd (pending s))" using registered_distinct_snd[OF r0] by simp
  have fq: "finallyQueue ?r = map fst (pending s)"
    using rejectEach_queue[OF la d] q0 by simp
  have pend: "pending (drain ?r) = []"
    using rejectEach_frame[of "pending s" ?s0] fq
    by (simp add: drain_def resumeShutdowns_eq runFinally_def delete_keys_all)
  have len: "length (promises (drain ?r)) = length (promises s)"
    using rejectEach_frame[of "pending s" ?s0] by (simp add: promises_drain)
  have rej: "list_all (\<lambda>(t, p). outcome (promises (drain ?r) ! p) =
          Rejected (ExitedUnexpectedly (exitMessage ?s0))) (pending s)"
    unfolding list_all_iff
  proof (rule ballI)
    fix x assume x: "x \<in> set (pending s)"
    obtain t p where tp: "x = (t, p)" by (cases x)
    have px: "p < length (promises ?s0)" "outcome (promises ?s0 ! p) = Pending"
      using la x tp by (auto simp add: list_all_iff)
    have "p \<in> snd ` set (pending s)" using x tp by force
    then have "promises ?r ! p = (promises ?s0 ! p)\<lparr>outcome := Rejected (ExitedUnexpectedly (exitMessage ?s0))\<rparr>"
      using rejectEach_promises[OF px(1), of "pending s"] px(2) by simp
    then show "case x of (t, p) \<Rightarrow> outcome (promises (drain ?r) ! p) =
          Rejected (ExitedUnexpectedly (exitMessage ?s0))"
      by (simp add: tp promises_drain)
  qed
  show ?thesis using st pend len rej by blast
qed

lemma reachable_inv:
  "run (loadRemoteNxPlugin wpid plugin root cache) es = Inr s \<Longrightarrow> pool_inv s"
  using inv_run[OF inv_init] by blast

lemma exitMessage_exit:
  "exitMessage (s\<lparr>exited := True, exitCode := c\<rparr>) =
     ''Plugin worker '' @
     (case map_of (pluginNames s) (pid s) of Some n \<Rightarrow> n | None \<Rightarrow> show_nat (pid s)) @
     '' exited unexpectedly with code '' @ show_exitCode c"
  by (simp add: exitMessage_def split: option.splits)

lemma finallyQueue_step: "step s e = Inr s' \<Longrightarrow> finallyQueue s' = []"
  by (auto simp add: step_def drain_def resumeShutdowns_eq runFinally_def split: sum.splits)

lemma exitListener_listener:
  "listener s e = Inr s' \<Longrightarrow> \<not> exitListener s \<Longrightarrow> \<not> exitListener s'"
  by (cases e)
    (auto simp add: listener_def invoke_def callOp_eq workerHandler_def onload_def onloadError_def
      opResult_def resolver_def rejector_def settle_def onExit_def
      shutdownFn_def cleanupFunction_def shutdownPluginWorker_def Let_def
      split: option.splits worker_result.splits load_result.splits op_result.splits if_splits
        load_outcome.splits)

lemma exitListener_step:
  "step s e = Inr s' \<Longrightarrow> \<not> exitListener s \<Longrightarrow> \<not> exitListener s'"
  by (auto simp add: step_def drain_def resumeShutdowns_eq runFinally_def split: sum.splits
      dest: exitListener_listener)

lemma detached_run:
  "run s es = Inr u \<Longrightarrow> \<not> exitListener s \<Longrightarrow> finallyQueue s = [] \<Longrightarrow>
   \<not> exitListener u \<and> finallyQueue u = []"
proof (induction es arbitrary: s)
  case Nil
  then show ?case by simp
next
  case (Cons e es)
  then obtain s1 where s1: "step s e = Inr s1" "run s1 es = Inr u"
    by (auto split: sum.splits)
  show ?case
    using Cons.IH[OF s1(2) exitListener_step[OF s1(1) Cons.prems(2)] finallyQueue_step[OF s1(1)]] .
qed

lemma shutdown_step:
  "step s Shutdown = Inr s1 \<Longrightarrow>
     \<not> exitListener s1 \<and> finallyQueue s1 = [] \<and>
     (\<exists>rest. trace s1 = trace s @ OffExit # CacheCleared # Awaiting (map snd (pending s)) # rest)"
  by (auto simp add: step_def listener_def drain_def resumeShutdowns_eq runFinally_def
      shutdownFn_def cleanupFunction_def shutdownPluginWorker_def Let_def)

lemma exit_detached:
  "\<not> exitListener u \<Longrightarrow> finallyQueue u = [] \<Longrightarrow>
   \<exists>u'. step u (Exit c) = Inr u' \<and> promises u' = promises u \<and> pending u' = pending u"
  by (simp add: step_def listener_def onExit_def Let_def drain_def resumeShutdowns_eq runFinally_def)

lemma quiet_drain: "quiet (drain s)"
  by (simp add: quiet_def drain_def resumeShutdowns_eq runFinally_def list_all_iff)

lemma quiet_run:
  "quiet s \<Longrightarrow> run s es = Inr s' \<Longrightarrow> quiet s'"
proof (induction es arbitrary: s)
  case Nil
  then show ?case by simp
next
  case (Cons e es)
  then obtain s1 where s1: "step s e = Inr s1" "run s1 es = Inr s'"
    by (auto split: sum.splits)
  have "quiet s1" using s1(1) by (auto simp add: step_def quiet_drain split: sum.splits)
  then show ?case using Cons.IH s1(2) by blast
qed

lemma quiet_reachable:
  "run (loadRemoteNxPlugin wpid plugin root cache) es = Inr s \<Longrightarrow> quiet s"
  by (erule quiet_run[rotated]) (simp add: quiet_def loadRemoteNxPlugin_def)

lemma handle_ok_mk:
  "list_all (\<lambda>opn. operation (mkRemotePlugin nm pat d g) opn = None
       \<or> operation (mkRemotePlugin nm pat d g) opn = Some opn)
     [CreateNodes, CreateDependencies, ProcessProjectGraph]"
  by (simp add: operation_def mkRemotePlugin_def)

lemma loadPromise_frame:
  "listener s e = Inr s' \<Longrightarrow> \<forall>lr. e \<noteq> Message (LoadResult lr) \<Longrightarrow> loadPromise s' = loadPromise s"
  by (cases e)
    (auto simp add: listener_def invoke_def callOp_eq workerHandler_def
      opResult_def resolver_def rejector_def settle_def onExit_def exitHandler_def rejectEach_frame
      shutdownFn_def cleanupFunction_def shutdownPluginWorker_def Let_def
      split: option.splits worker_result.splits op_result.splits if_splits load_outcome.splits)

lemma handle_ok_listener:
  assumes l: "listener s e = Inr s'" and h: "handle_ok s"
  shows "handle_ok s'"
proof (cases "\<exists>lr. e = Message (LoadResult lr)")
  case False
  then have "loadPromise s' = loadPromise s" using loadPromise_frame[OF l] by blast
  then show ?thesis using h by (simp add: handle_ok_def)
next
  case True
  then obtain lr where e: "e = Message (LoadResult lr)" by blast
  show ?thesis
  proof (cases lr)
    case (LoadSuccess nm pat d g)
    have "loadPromise s' = loadPromise s \<or> loadPromise s' = LoadResolved (mkRemotePlugin nm pat d g)"
      using l by (auto simp add: e LoadSuccess listener_def workerHandler_def onload_def
          split: load_outcome.splits)
    then show ?thesis
    proof
      assume "loadPromise s' = loadPromise s"
      then show ?thesis using h by (simp add: handle_ok_def)
    next
      assume "loadPromise s' = LoadResolved (mkRemotePlugin nm pat d g)"
      then show ?thesis using handle_ok_mk[of nm pat d g] by (simp add: handle_ok_def)
    qed
  next
    case (LoadFailure x)
    have "loadPromise s' = loadPromise s \<or> loadPromise s' = LoadRejected x"
      using l by (auto simp add: e LoadFailure listener_def workerHandler_def onloadError_def
          split: load_outcome.splits)
    then show ?thesis using h by (auto simp add: handle_ok_def)
  qed
qed

lemma handle_ok_step:
  assumes "handle_ok s" and "step s e = Inr s'"
  shows "handle_ok s'"
proof -
  obtain s1 where l: "listener s e = Inr s1" and s': "s' = drain s1"
    using assms(2) by (auto simp add: step_def split: sum.splits)
  have "handle_ok s1" using handle_ok_listener[OF l assms(1)] .
  then show ?thesis by (simp add: s' handle_ok_def loadPromise_drain)
qed

lemma handle_ok_reachable:
  "run s es = Inr s' \<Longrightarrow> handle_ok s \<Longrightarrow> handle_ok s'"
  by (induction es arbitrary: s) (auto split: sum.splits dest: handle_ok_step)

lemma handle_ok_operation:
  "handle_ok s \<Longrightarrow> loadPromise s = LoadResolved h \<Longrightarrow> operation h opn = Some f \<Longrightarrow> f = opn"
  by (cases opn) (auto simp add: handle_ok_def)

lemma status_append:
  "is_rejected (ps @ [\<lparr>tx_id = t, outcome = Pending\<rparr>]) p = is_rejected ps p"
  "is_fulfilled (ps @ [\<lparr>tx_id = t, outcome = Pending\<rparr>]) p = is_fulfilled ps p"
  by (auto simp add: is_rejected_def is_fulfilled_def nth_append)

lemma still_waiting_append:
  "still_waiting (ps @ [\<lparr>tx_id = t, outcome = Pending\<rparr>]) = still_waiting ps"
  by (rule ext) (simp add: still_waiting_def some_rejected_def list_ex_iff list_all_iff status_append)

lemma drain_quiet:
  assumes "finallyQueue s = []" and "list_all (still_waiting (promises s)) (shutdownWaits s)"
  shows "drain s = s"
proof -
  have w: "filter (still_waiting (promises s)) (shutdownWaits s) = shutdownWaits s"
    using assms(2) by (simp add: list_all_iff)
  have r: "filter (some_rejected (promises s)) (shutdownWaits s) = []"
    using assms(2) by (auto simp add: list_all_iff filter_empty_conv still_waiting_def)
  have f: "filter (all_fulfilled (promises s)) (shutdownWaits s) = []"
    using assms(2) by (auto simp add: list_all_iff filter_empty_conv still_waiting_def all_fulfilled_def)
  show ?thesis using assms(1) by (simp add: drain_def resumeShutdowns_eq runFinally_def w r f)
qed

lemma invoke_step:
  assumes q: "quiet s" and h: "handle_ok s" and st: "step s (Invoke opn args now) = Inr s'"
  shows "s' = callOp opn args now s"
proof -
  obtain hd f where "loadPromise s = LoadResolved hd" "operation hd opn = Some f"
      and s': "s' = drain (callOp f args now s)"
    using st by (auto simp add: step_def listener_def invoke_def split: load_outcome.splits option.splits)
  then have f: "f = opn" using handle_ok_operation[OF h] by blast
  have "drain (callOp opn args now s) = callOp opn args now s"
    using q by (intro drain_quiet) (simp_all add: quiet_def callOp_eq still_waiting_append)
  then show ?thesis using s' f by simp
qed

lemma update_lookup: "map_of (AList.update k v al) k = Some v"
  by (simp add: update_conv')

lemma response_step:
  assumes r: "result_of e = Some (t, r)" and m: "map_of (pending s) t = Some p"
    and p: "p < length (promises s)" and pe: "outcome (promises s ! p) = Pending"
  shows "\<exists>s'. step s e = Inr s' \<and> outcome (promises s' ! p) = outcome_of r"
proof -
  have l: "listener s e = opResult t r s"
    using r by (auto simp add: result_of_def listener_def workerHandler_def
        split: event.splits worker_result.splits)
  have "opResult t r s = Inr (case r of OpSuccess v \<Rightarrow> resolver p v s
                              | OpFailure e \<Rightarrow> rejector p (Reported e) s)"
    using m by (simp add: opResult_def)
  moreover have "outcome (promises (case r of OpSuccess v \<Rightarrow> resolver p v s
                              | OpFailure e \<Rightarrow> rejector p (Reported e) s) ! p) = outcome_of r"
    using p pe by (cases r) (simp_all add: resolver_def rejector_def settle_def outcome_of_def)
  ultimately show ?thesis using l by (simp add: step_def promises_drain)
qed

subsection \<open>A registered transaction in later turns\<close>

lemma pending_drain: "finallyQueue s = [] \<Longrightarrow> pending (drain s) = pending s"
  by (simp add: drain_def resumeShutdowns_eq runFinally_def)

lemma outcome_of_settled: "outcome_of r \<noteq> Pending"
  by (cases r) (simp_all add: outcome_of_def)

lemma promises_listener:
  assumes l: "listener u e = Inr u1" and p: "p < length (promises u)"
  shows "p < length (promises u1) \<and> tx_id (promises u1 ! p) = tx_id (promises u ! p)
     \<and> (outcome (promises u ! p) \<noteq> Pending \<longrightarrow> outcome (promises u1 ! p) = outcome (promises u ! p))"
proof (cases e)
  case (Invoke opn args now)
  then obtain f where "u1 = callOp f args now u"
    using l by (auto simp add: listener_def invoke_def split: load_outcome.splits option.splits)
  then show ?thesis using p by (simp add: callOp_eq nth_append)
next
  case (Message m)
  show ?thesis
  proof (cases "result_of e")
    case None
    then obtain lr where m: "m = LoadResult lr"
      using Message by (cases m) (simp_all add: result_of_def)
    have "promises u1 = promises u"
      using l Message m
      by (auto simp add: listener_def workerHandler_def onload_def onloadError_def
          split: load_result.splits load_outcome.splits)
    then show ?thesis using p by simp
  next
    case (Some tr)
    obtain t r where tr: "tr = (t, r)" by (cases tr)
    have "listener u e = opResult t r u"
      using Some tr by (auto simp add: result_of_def listener_def workerHandler_def
          split: event.splits worker_result.splits)
    then obtain q where "u1 = (case r of OpSuccess v \<Rightarrow> resolver q v u
                              | OpFailure x \<Rightarrow> rejector q (Reported x) u)"
      using l by (auto simp add: opResult_def split: option.splits)
    then show ?thesis using p
      by (cases r) (auto simp add: resolver_def rejector_def settle_def nth_list_update)
  qed
next
  case (Exit c)
  let ?u0 = "u\<lparr>exited := True, exitCode := c\<rparr>"
  have p0: "p < length (promises ?u0)" using p by simp
  show ?thesis
  proof (cases "exitListener u")
    case True
    then have u1: "u1 = rejectEach (pending u) ?u0"
      using l Exit by (simp add: listener_def onExit_def exitHandler_def Let_def)
    show ?thesis
      unfolding u1 using rejectEach_promises[OF p0, of "pending u"] rejectEach_frame[of "pending u" ?u0] p
      by auto
  next
    case False
    then have "u1 = ?u0" using l Exit by (simp add: listener_def onExit_def Let_def)
    then show ?thesis using p by simp
  qed
next
  case Shutdown
  then have "promises u1 = promises u"
    using l by (auto simp add: listener_def shutdownFn_def cleanupFunction_def shutdownPluginWorker_def Let_def)
  then show ?thesis using p by simp
qed

lemma promises_step:
  assumes "step u e = Inr u'" and "p < length (promises u)"
  shows "p < length (promises u') \<and> tx_id (promises u' ! p) = tx_id (promises u ! p)
     \<and> (outcome (promises u ! p) \<noteq> Pending \<longrightarrow> outcome (promises u' ! p) = outcome (promises u ! p))"
proof -
  obtain u1 where l: "listener u e = Inr u1" and u': "u' = drain u1"
    using assms(1) by (auto simp add: step_def split: sum.splits)
  show ?thesis using promises_listener[OF l assms(2)] by (simp add: u' promises_drain)
qed

lemma result_step_pending:
  assumes i: "pool_inv u" and r: "result_of e = Some (t', r)" and st: "step u e = Inr u'"
  shows "pending u' = AList.delete t' (pending u)"
proof -
  have l: "listener u e = opResult t' r u"
    using r by (auto simp add: result_of_def listener_def workerHandler_def
        split: event.splits worker_result.splits)
  obtain u1 where u1: "opResult t' r u = Inr u1" and u': "u' = drain u1"
    using st l by (auto simp add: step_def split: sum.splits)
  obtain p where m: "map_of (pending u) t' = Some p"
    using u1 by (auto simp add: opResult_def split: option.splits)
  have mem: "(t', p) \<in> set (pending u)" using m by (rule map_of_SomeD)
  have pp: "p < length (promises u)" "outcome (promises u ! p) = Pending" "tx_id (promises u ! p) = t'"
    using i mem by (auto simp add: pool_inv_def registered_def list_all_iff)
  have q: "finallyQueue u = []" using i by (simp add: pool_inv_def)
  have "pending u1 = pending u \<and> finallyQueue u1 = [t']"
    using u1 m pp q
    by (cases r) (auto simp add: opResult_def resolver_def rejector_def settle_def)
  then show ?thesis by (simp add: u' drain_def resumeShutdowns_eq runFinally_def)
qed

lemma pending_step:
  assumes i: "pool_inv u" and q: "quiet u" and h: "handle_ok u"
    and st: "step u e = Inr u'" and m: "map_of (pending u) t = Some n"
  shows "outcome (promises u' ! n) \<noteq> Pending \<or> map_of (pending u') t = Some n
     \<or> (length (promises u) < length (promises u') \<and> tx_id (promises u' ! length (promises u)) = t)"
proof -
  have fq: "finallyQueue u = []" using i by (simp add: pool_inv_def)
  have mem: "(t, n) \<in> set (pending u)" using m by (rule map_of_SomeD)
  have np: "n < length (promises u)" "outcome (promises u ! n) = Pending"
    using i mem by (auto simp add: pool_inv_def registered_def list_all_iff)
  show ?thesis
  proof (cases e)
    case (Invoke opn args now)
    then have u': "u' = callOp opn args now u" using invoke_step[OF q h] st by simp
    show ?thesis
    proof (cases "tx_of (pluginName u) opn now = t")
      case True
      then show ?thesis by (simp add: u' callOp_eq)
    next
      case False
      then show ?thesis using m by (simp add: u' callOp_eq update_conv')
    qed
  next
    case (Message msg)
    show ?thesis
    proof (cases "result_of e")
      case None
      then obtain lr where lr: "msg = LoadResult lr"
        using Message by (cases msg) (simp_all add: result_of_def)
      obtain u1 where l: "listener u e = Inr u1" and u': "u' = drain u1"
        using st by (auto simp add: step_def split: sum.splits)
      have "pending u1 = pending u \<and> finallyQueue u1 = []"
        using l Message lr fq
        by (auto simp add: listener_def workerHandler_def onload_def onloadError_def
            split: load_result.splits load_outcome.splits)
      then show ?thesis using m by (simp add: u' pending_drain)
    next
      case (Some tr)
      obtain t' r where tr: "result_of e = Some (t', r)" using Some by (cases tr) simp
      show ?thesis
      proof (cases "t' = t")
        case True
        obtain s' where "step u e = Inr s'" "outcome (promises s' ! n) = outcome_of r"
          using response_step[OF tr[unfolded True] m np] by blast
        then show ?thesis using st outcome_of_settled by simp
      next
        case False
        have "pending u' = AList.delete t' (pending u)" using result_step_pending[OF i tr st] .
        then show ?thesis using m False by simp
      qed
    qed
  next
    case (Exit c)
    show ?thesis
    proof (cases "exitListener u")
      case True
      obtain s' where s': "step u (Exit c) = Inr s'"
        "list_all (\<lambda>(t, p). outcome (promises s' ! p) =
          Rejected (ExitedUnexpectedly (exitMessage (u\<lparr>exited := True, exitCode := c\<rparr>)))) (pending u)"
        using exit_rejects[OF i True, of c] by blast
      have "outcome (promises s' ! n) \<noteq> Pending"
        using s'(2) mem by (auto simp add: list_all_iff)
      then show ?thesis using s'(1) st Exit by simp
    next
      case False
      then show ?thesis using exit_detached[OF False fq, of c] st Exit m by auto
    qed
  next
    case Shutdown
    then have "pending u' = pending u"
      using st fq
      by (auto simp add: step_def listener_def drain_def resumeShutdowns_eq runFinally_def
          shutdownFn_def cleanupFunction_def shutdownPluginWorker_def Let_def)
    then show ?thesis using m by simp
  qed
qed

lemma quiet_step: "step u e = Inr u' \<Longrightarrow> quiet u'"
  by (auto simp add: step_def quiet_drain split: sum.splits)

lemma stays_registered:
  assumes "run s' es = Inr u" and "pool_inv s'" and "quiet s'" and "handle_ok s'"
    and "n < length (promises s')" and "tx_id (promises s' ! n) = t"
    and "outcome (promises s' ! n) \<noteq> Pending \<or> map_of (pending s') t = Some n
          \<or> (\<exists>m. n < m \<and> m < length (promises s') \<and> tx_id (promises s' ! m) = t)"
  shows "pool_inv u \<and> n < length (promises u) \<and>
     (outcome (promises u ! n) \<noteq> Pending \<or> map_of (pending u) t = Some n
          \<or> (\<exists>m. n < m \<and> m < length (promises u) \<and> tx_id (promises u ! m) = t))"
  using assms
proof (induction es arbitrary: s')
  case Nil
  then show ?case by simp
next
  case (Cons e es)
  obtain s1 where st: "step s' e = Inr s1" and rn: "run s1 es = Inr u"
    using Cons.prems(1) by (auto split: sum.splits)
  have i1: "pool_inv s1" using Cons.prems(2) st by (rule inv_step)
  have q1: "quiet s1" using st by (rule quiet_step)
  have h1: "handle_ok s1" using Cons.prems(4) st by (rule handle_ok_step)
  note pn = promises_step[OF st Cons.prems(5)]
  have n1: "n < length (promises s1)" and t1: "tx_id (promises s1 ! n) = t"
    using pn Cons.prems(6) by simp_all
  have d1: "outcome (promises s1 ! n) \<noteq> Pending \<or> map_of (pending s1) t = Some n
          \<or> (\<exists>m. n < m \<and> m < length (promises s1) \<and> tx_id (promises s1 ! m) = t)"
    using Cons.prems(7)
  proof (elim disjE)
    assume "outcome (promises s' ! n) \<noteq> Pending"
    then show ?thesis using pn by simp
  next
    assume m: "map_of (pending s') t = Some n"
    from pending_step[OF Cons.prems(2,3,4) st m] Cons.prems(5)
    show ?thesis by auto
  next
    assume "\<exists>m. n < m \<and> m < length (promises s') \<and> tx_id (promises s' ! m) = t"
    then obtain m where m: "n < m" "m < length (promises s')" "tx_id (promises s' ! m) = t" by blast
    from promises_step[OF st m(2)] m show ?thesis by auto
  qed
  show ?case using Cons.IH[OF rn i1 q1 h1 n1 t1 d1] .
qed

subsection \<open>Repeated shutdown\<close>

lemma same_state_refl: "same_state a a"
  by (simp add: same_state_def)

lemma same_state_trans: "same_state a b \<Longrightarrow> same_state b c \<Longrightarrow> same_state a c"
  by (simp add: same_state_def)

lemma same_outcome_refl: "same_outcome x x"
  by (cases x) (simp_all add: same_outcome_def same_state_refl)

lemma same_outcome_Inr [simp]: "same_outcome (Inr a) (Inr b) = same_state a b"
  by (simp add: same_outcome_def)

lemma ss_rejector: "same_state a b \<Longrightarrow> same_state (rejector p e a) (rejector p e b)"
  by (simp add: same_state_def rejector_def settle_def)

lemma ss_resolver: "same_state a b \<Longrightarrow> same_state (resolver p v a) (resolver p v b)"
  by (simp add: same_state_def resolver_def settle_def)

lemma ss_exitMessage: "same_state a b \<Longrightarrow> exitMessage a = exitMessage b"
  by (simp add: same_state_def exitMessage_def split: option.splits)

lemma ss_rejectEach: "same_state a b \<Longrightarrow> same_state (rejectEach al a) (rejectEach al b)"
proof (induction al arbitrary: a b)
  case Nil
  then show ?case by simp
next
  case (Cons x al)
  obtain t p where x: "x = (t, p)" by (cases x)
  have "same_state (rejector p (ExitedUnexpectedly (exitMessage a)) a)
                    (rejector p (ExitedUnexpectedly (exitMessage b)) b)"
    using Cons.prems ss_exitMessage[OF Cons.prems] by (simp add: ss_rejector)
  then show ?case unfolding x rejectEach.simps by (rule Cons.IH)
qed

lemma ss_onExit: "same_state a b \<Longrightarrow> same_state (onExit c a) (onExit c b)"
proof -
  assume ab: "same_state a b"
  have e: "exitListener a = exitListener b" "pending a = pending b"
    using ab by (simp_all add: same_state_def)
  have s0: "same_state (a\<lparr>exited := True, exitCode := c\<rparr>) (b\<lparr>exited := True, exitCode := c\<rparr>)"
    using ab by (simp add: same_state_def)
  show ?thesis
    using ss_rejectEach[OF s0, of "pending b"] s0 e
    by (simp add: onExit_def Let_def exitHandler_def)
qed

lemma ss_shutdownFn: "same_state a b \<Longrightarrow> same_state (shutdownFn a) (shutdownFn b)"
  by (simp add: same_state_def shutdownFn_def cleanupFunction_def shutdownPluginWorker_def Let_def)

lemma ss_callOp: "same_state a b \<Longrightarrow> same_state (callOp f args now a) (callOp f args now b)"
  by (simp add: same_state_def callOp_eq)

lemma ss_invoke: "same_state a b \<Longrightarrow> same_outcome (invoke opn args now a) (invoke opn args now b)"
proof -
  assume ab: "same_state a b"
  have l: "loadPromise a = loadPromise b" using ab by (simp add: same_state_def)
  show ?thesis
    using ss_callOp[OF ab]
    by (auto simp add: invoke_def l same_outcome_def split: load_outcome.splits option.splits)
qed

lemma ss_opResult: "same_state a b \<Longrightarrow> same_outcome (opResult t r a) (opResult t r b)"
proof -
  assume ab: "same_state a b"
  have l: "pending a = pending b" using ab by (simp add: same_state_def)
  show ?thesis
    using ss_resolver[OF ab] ss_rejector[OF ab]
    by (auto simp add: opResult_def l same_outcome_def split: option.splits op_result.splits)
qed

lemma ss_load:
  "same_state a b \<Longrightarrow> same_outcome (workerHandler (LoadResult lr) a) (workerHandler (LoadResult lr) b)"
  by (cases lr)
    (auto simp add: workerHandler_def onload_def onloadError_def same_state_def
      split: load_outcome.splits)

lemma ss_workerHandler:
  "same_state a b \<Longrightarrow> same_outcome (workerHandler m a) (workerHandler m b)"
proof (cases m)
  case (LoadResult lr)
  assume "same_state a b"
  then show ?thesis unfolding LoadResult by (rule ss_load)
qed (simp_all add: workerHandler_def ss_opResult)

lemma ss_listener: "same_state a b \<Longrightarrow> same_outcome (listener a e) (listener b e)"
  by (cases e) (simp_all add: listener_def ss_invoke ss_workerHandler ss_onExit ss_shutdownFn)

lemma ss_runFinally: "same_state a b \<Longrightarrow> same_state (runFinally a) (runFinally b)"
  by (simp add: same_state_def runFinally_def)

lemma ss_resumeShutdowns:
  assumes ab: "same_state a b"
  shows "same_state (resumeShutdowns a) (resumeShutdowns b)"
proof -
  have p: "promises a = promises b" and w: "set (shutdownWaits a) = set (shutdownWaits b)"
    using ab by (simp_all add: same_state_def)
  have f: "(filter (all_fulfilled (promises b)) (shutdownWaits a) \<noteq> []) =
           (filter (all_fulfilled (promises b)) (shutdownWaits b) \<noteq> [])"
    using w by (auto simp add: filter_empty_conv)
  have s: "set (filter (still_waiting (promises b)) (shutdownWaits a)) =
           set (filter (still_waiting (promises b)) (shutdownWaits b))"
    using w by simp
  show ?thesis
    using ab f s unfolding resumeShutdowns_eq p
    by (auto simp add: same_state_def)
qed

lemma ss_step: "same_state a b \<Longrightarrow> same_outcome (step a e) (step b e)"
  using ss_listener[of a b e]
  by (auto simp add: step_def drain_def same_outcome_def ss_runFinally ss_resumeShutdowns
      split: sum.splits)

lemma ss_run: "same_state a b \<Longrightarrow> same_outcome (run a es) (run b es)"
proof (induction es arbitrary: a b)
  case Nil
  then show ?case by simp
next
  case (Cons e es)
  note st = ss_step[OF Cons.prems, of e]
  show ?case
  proof (cases "step a e")
    case (Inl x)
    then show ?thesis using st by (cases "step b e") (simp_all add: same_outcome_def)
  next
    case (Inr a')
    then obtain b' where b': "step b e = Inr b'" "same_state a' b'"
      using st by (cases "step b e") (simp_all add: same_outcome_def)
    show ?thesis using Cons.IH[OF b'(2)] Inr b'(1) by simp
  qed
qed

lemma run_append: "run s (xs @ ys) = (case run s xs of Inl x \<Rightarrow> Inl x | Inr t \<Rightarrow> run t ys)"
  by (induction xs arbitrary: s) (auto split: sum.splits)

lemma registered_waits:
  assumes r: "registered x"
  shows "pending x \<noteq> [] \<Longrightarrow> still_waiting (promises x) (map snd (pending x))"
    and "pending x = [] \<Longrightarrow> all_fulfilled (promises x) (map snd (pending x))"
proof -
  have la: "\<And>t p. (t, p) \<in> set (pending x) \<Longrightarrow> p < length (promises x) \<and> outcome (promises x ! p) = Pending"
    using r by (auto simp add: registered_def list_all_iff)
  show "pending x = [] \<Longrightarrow> all_fulfilled (promises x) (map snd (pending x))"
    by (simp add: all_fulfilled_def some_rejected_def)
  assume ne: "pending x \<noteq> []"
  then obtain t p where tp: "(t, p) \<in> set (pending x)" by (cases "pending x") auto
  have nr: "\<not> some_rejected (promises x) (map snd (pending x))"
    using la by (auto simp add: some_rejected_def list_ex_iff is_rejected_def)
  have "\<not> is_fulfilled (promises x) p" using la[OF tp] by (simp add: is_fulfilled_def)
  then have "\<not> list_all (is_fulfilled (promises x)) (map snd (pending x))"
    using tp by (force simp add: list_all_iff)
  then show "still_waiting (promises x) (map snd (pending x))"
    using nr by (simp add: still_waiting_def)
qed

lemma waiting_not_fulfilled: "still_waiting ps w \<Longrightarrow> \<not> all_fulfilled ps w \<and> \<not> some_rejected ps w"
  by (simp add: still_waiting_def all_fulfilled_def)

lemma fulfilled_not_waiting: "all_fulfilled ps w \<Longrightarrow> \<not> still_waiting ps w \<and> \<not> some_rejected ps w"
  by (simp add: still_waiting_def all_fulfilled_def)

lemma shutdown_exact:
  assumes i: "pool_inv x" and q: "quiet x"
  shows "step x Shutdown = Inr (x\<lparr>exitListener := False, nxPluginCache := [],
      cleanupFunctions := removeAll (pid x) (cleanupFunctions x),
      shutdownWaits := shutdownWaits x @ (if pending x = [] then [] else [map snd (pending x)]),
      killed := (killed x \<or> (pending x = [] \<and> \<not> exited x)),
      trace := trace x @ OffExit # CacheCleared # Awaiting (map snd (pending x))
                 # (if pending x = [] then [Kill] else [])\<rparr>)"
proof -
  have fq: "finallyQueue x = []" and r: "registered x" using i by (simp_all add: pool_inv_def)
  have ws: "list_all (still_waiting (promises x)) (shutdownWaits x)" using q by (simp add: quiet_def)
  have w1: "filter (still_waiting (promises x)) (shutdownWaits x) = shutdownWaits x"
    using ws by (simp add: list_all_iff)
  have w2: "filter (some_rejected (promises x)) (shutdownWaits x) = []"
    using ws waiting_not_fulfilled by (auto simp add: list_all_iff filter_empty_conv)
  have w3: "filter (all_fulfilled (promises x)) (shutdownWaits x) = []"
    using ws waiting_not_fulfilled by (auto simp add: list_all_iff filter_empty_conv)
  show ?thesis
  proof (cases "pending x = []")
    case True
    note f = fulfilled_not_waiting[OF registered_waits(2)[OF r True]]
    show ?thesis
      using True f registered_waits(2)[OF r True] fq w1 w2 w3
      by (simp add: step_def listener_def drain_def resumeShutdowns_eq runFinally_def
          shutdownFn_def cleanupFunction_def shutdownPluginWorker_def Let_def)
  next
    case False
    note f = waiting_not_fulfilled[OF registered_waits(1)[OF r False]]
    show ?thesis
      using False f registered_waits(1)[OF r False] fq w1 w2 w3
      by (simp add: step_def listener_def drain_def resumeShutdowns_eq runFinally_def
          shutdownFn_def cleanupFunction_def shutdownPluginWorker_def Let_def)
  qed
qed

lemma shutdowns_exact:
  assumes i: "pool_inv x" and q: "quiet x"
  shows "run x (replicate (Suc n) Shutdown) = Inr (x\<lparr>exitListener := False, nxPluginCache := [],
      cleanupFunctions := removeAll (pid x) (cleanupFunctions x),
      shutdownWaits := shutdownWaits x @
         (if pending x = [] then [] else replicate (Suc n) (map snd (pending x))),
      killed := (killed x \<or> (pending x = [] \<and> \<not> exited x)),
      trace := trace x @ concat (replicate (Suc n)
                 (OffExit # CacheCleared # Awaiting (map snd (pending x))
                    # (if pending x = [] then [Kill] else [])))\<rparr>)"
  using i q
proof (induction n arbitrary: x)
  case 0
  show ?case using shutdown_exact[OF 0] by simp
next
  case (Suc n)
  let ?x1 = "x\<lparr>exitListener := False, nxPluginCache := [],
      cleanupFunctions := removeAll (pid x) (cleanupFunctions x),
      shutdownWaits := shutdownWaits x @ (if pending x = [] then [] else [map snd (pending x)]),
      killed := (killed x \<or> (pending x = [] \<and> \<not> exited x)),
      trace := trace x @ OffExit # CacheCleared # Awaiting (map snd (pending x))
                 # (if pending x = [] then [Kill] else [])\<rparr>"
  have st: "step x Shutdown = Inr ?x1" using shutdown_exact[OF Suc.prems] .
  have i1: "pool_inv ?x1" using Suc.prems(1) st by (rule inv_step)
  have q1: "quiet ?x1" using st by (rule quiet_step)
  have "run x (replicate (Suc (Suc n)) Shutdown) = run ?x1 (replicate (Suc n) Shutdown)"
    using st by simp
  also have "\<dots> = Inr (x\<lparr>exitListener := False, nxPluginCache := [],
      cleanupFunctions := removeAll (pid x) (cleanupFunctions x),
      shutdownWaits := shutdownWaits x @
         (if pending x = [] then [] else replicate (Suc (Suc n)) (map snd (pending x))),
      killed := (killed x \<or> (pending x = [] \<and> \<not> exited x)),
      trace := trace x @ concat (replicate (Suc (Suc n))
                 (OffExit # CacheCleared # Awaiting (map snd (pending x))
                    # (if pending x = [] then [Kill] else [])))\<rparr>)"
    unfolding Suc.IH[OF i1 q1] by (auto simp add: replicate_app_Cons_same)
  finally show ?case .
qed

section \<open>The claims\<close>

text \<open>
  C2. A result envelope whose transaction identifier is not in the registry should be
  logged or dropped without an exception. The three result handlers destructure
  \<open>pending.get(tx)\<close> with no check: on a worker with an empty registry each of the three
  result kinds makes the message listener throw.
\<close>

theorem unknown_tx_throws:
  "map (step (loadRemoteNxPlugin 42 ''p'' ''/r'' []))
     [Message (CreateNodesResult ''demo:createNodes:1.5'' (OpSuccess ''{}'')),
      Message (CreateDependenciesResult ''demo:createDependencies:1.5'' (OpFailure ''boom'')),
      Message (ProcessProjectGraphResult ''demo:processProjectGraph:1.5'' (OpSuccess ''{}''))]
   = [Inl DestructureUndefined, Inl DestructureUndefined, Inl DestructureUndefined]"
  by (simp add: pool_eval)

text \<open>
  C4. The load promise should be rejected when the worker exits before a load result
  has come. The exit handler rejects the entries of the registry only, and the load
  promise is not one of them: after the worker has exited with code 1 before any
  message, the load promise is still pending.
\<close>

theorem load_pending_after_exit:
  "map_sum id exited (run (loadRemoteNxPlugin 42 ''p'' ''/r'' []) [Exit (Some 1)]) = Inr True
   \<and> map_sum id exitCode (run (loadRemoteNxPlugin 42 ''p'' ''/r'' []) [Exit (Some 1)]) = Inr (Some 1)
   \<and> map_sum id loadPromise (run (loadRemoteNxPlugin 42 ''p'' ''/r'' []) [Exit (Some 1)]) = Inr LoadPending"
  by (simp add: pool_eval)

text \<open>
  C5. Shutdown should wait for every pending promise and then send SIGINT. The wait is
  a \<open>Promise.all\<close>: when the one outstanding call is rejected by a failure result after
  shutdown has begun, the call is settled and removed, the suspended shutdown is gone,
  and no signal has been sent.
\<close>

theorem rejected_call_skips_kill:
  "map_sum id (map outcome \<circ> promises)
     (run (loadRemoteNxPlugin 42 ''p'' ''/r'' [])
          [Message (LoadResult (LoadSuccess ''demo'' None True False)),
           Invoke CreateDependencies ''{}'' ''5.25'',
           Shutdown,
           Message (CreateDependenciesResult ''demo:createDependencies:5.25'' (OpFailure ''boom''))]) = Inr [Rejected (Reported ''boom'')]
   \<and> map_sum id pending
     (run (loadRemoteNxPlugin 42 ''p'' ''/r'' [])
          [Message (LoadResult (LoadSuccess ''demo'' None True False)),
           Invoke CreateDependencies ''{}'' ''5.25'',
           Shutdown,
           Message (CreateDependenciesResult ''demo:createDependencies:5.25'' (OpFailure ''boom''))]) = Inr []
   \<and> map_sum id shutdownWaits
     (run (loadRemoteNxPlugin 42 ''p'' ''/r'' [])
          [Message (LoadResult (LoadSuccess ''demo'' None True False)),
           Invoke CreateDependencies ''{}'' ''5.25'',
           Shutdown,
           Message (CreateDependenciesResult ''demo:createDependencies:5.25'' (OpFailure ''boom''))]) = Inr []
   \<and> map_sum id killed
     (run (loadRemoteNxPlugin 42 ''p'' ''/r'' [])
          [Message (LoadResult (LoadSuccess ''demo'' None True False)),
           Invoke CreateDependencies ''{}'' ''5.25'',
           Shutdown,
           Message (CreateDependenciesResult ''demo:createDependencies:5.25'' (OpFailure ''boom''))]) = Inr False
   \<and> map_sum id (filter ((=) Kill) \<circ> trace)
     (run (loadRemoteNxPlugin 42 ''p'' ''/r'' [])
          [Message (LoadResult (LoadSuccess ''demo'' None True False)),
           Invoke CreateDependencies ''{}'' ''5.25'',
           Shutdown,
           Message (CreateDependenciesResult ''demo:createDependencies:5.25'' (OpFailure ''boom''))]) = Inr []"
  by (simp add: pool_eval)

text \<open>
  C7. From a successful load result the handle has \<open>createNodes\<close>, paired with the
  pattern, exactly when the payload carries a pattern that is a non-empty string (an
  absent or empty pattern gives no \<open>createNodes\<close>), \<open>createDependencies\<close> exactly when
  \<open>hasCreateDependencies\<close> holds and \<open>processProjectGraph\<close> exactly when
  \<open>hasProcessProjectGraph\<close> holds; calling an absent operation throws (it is undefined,
  not a no-op); and the handle the load promise was resolved with stays the same in
  every later state.
\<close>

theorem handle_operation_gating:
  assumes "loadPromise s = LoadPending"
  shows "\<exists>s' h. step s (Message (LoadResult (LoadSuccess nm pat hasDeps hasGraph))) = Inr s'
     \<and> loadPromise s' = LoadResolved h \<and> name h = nm
     \<and> createNodes h = (case pat of None \<Rightarrow> None | Some [] \<Rightarrow> None
                          | Some (c # cs) \<Rightarrow> Some (c # cs, CreateNodes))
     \<and> createDependencies h = (if hasDeps then Some CreateDependencies else None)
     \<and> processProjectGraph h = (if hasGraph then Some ProcessProjectGraph else None)
     \<and> (createNodes h \<noteq> None \<longleftrightarrow> (\<exists>p. pat = Some p \<and> p \<noteq> []))
     \<and> (createDependencies h \<noteq> None \<longleftrightarrow> hasDeps)
     \<and> (processProjectGraph h \<noteq> None \<longleftrightarrow> hasGraph)
     \<and> (\<forall>opn args now. operation h opn = None \<longrightarrow>
           step s' (Invoke opn args now) = Inl NotAFunction)
     \<and> (\<forall>es u. run s' es = Inr u \<longrightarrow> loadPromise u = LoadResolved h)"
proof -
  let ?h = "mkRemotePlugin nm pat hasDeps hasGraph"
  let ?s' = "drain (s\<lparr>pluginName := Some nm,
                     pluginNames := AList.update (pid s) nm (pluginNames s),
                     loadPromise := LoadResolved ?h\<rparr>)"
  have st: "step s (Message (LoadResult (LoadSuccess nm pat hasDeps hasGraph))) = Inr ?s'"
    using assms by (simp add: step_def listener_def workerHandler_def onload_def)
  have lp: "loadPromise ?s' = LoadResolved ?h" by (simp add: loadPromise_drain)
  have cn: "createNodes ?h = (case pat of None \<Rightarrow> None | Some [] \<Rightarrow> None
                          | Some (c # cs) \<Rightarrow> Some (c # cs, CreateNodes))"
    by (simp add: mkRemotePlugin_def truthy_def split: option.splits list.splits)
  have cn2: "createNodes ?h \<noteq> None \<longleftrightarrow> (\<exists>p. pat = Some p \<and> p \<noteq> [])"
    unfolding cn by (auto split: option.splits list.splits)
  have gate: "name ?h = nm
     \<and> createDependencies ?h = (if hasDeps then Some CreateDependencies else None)
     \<and> processProjectGraph ?h = (if hasGraph then Some ProcessProjectGraph else None)
     \<and> (createDependencies ?h \<noteq> None \<longleftrightarrow> hasDeps)
     \<and> (processProjectGraph ?h \<noteq> None \<longleftrightarrow> hasGraph)"
    by (simp add: mkRemotePlugin_def)
  have absent: "\<forall>opn args now. operation ?h opn = None \<longrightarrow>
      step ?s' (Invoke opn args now) = Inl NotAFunction"
    using lp by (simp add: step_def listener_def invoke_def)
  have fixed: "\<forall>es u. run ?s' es = Inr u \<longrightarrow> loadPromise u = LoadResolved ?h"
    using lp loadPromise_run by blast
  show ?thesis
    using st lp cn cn2 gate absent fixed by (intro exI[of _ ?s'] exI[of _ ?h] conjI) blast+
qed

theorem handle_operation_gating_witness:
  "loadPromise (loadRemoteNxPlugin 42 ''p'' ''/r'' []) = LoadPending
   \<and> (\<exists>s' h. step (loadRemoteNxPlugin 42 ''p'' ''/r'' [])
        (Message (LoadResult (LoadSuccess ''demo'' (Some ''*.json'') False True))) = Inr s'
     \<and> loadPromise s' = LoadResolved h \<and> name h = ''demo''
     \<and> createNodes h = Some (''*.json'', CreateNodes) \<and> createDependencies h = None
     \<and> processProjectGraph h = Some ProcessProjectGraph
     \<and> step s' (Invoke CreateDependencies ''{}'' ''1.5'') = Inl NotAFunction)
   \<and> (\<exists>s' h. step (loadRemoteNxPlugin 42 ''p'' ''/r'' [])
        (Message (LoadResult (LoadSuccess ''demo'' None True False))) = Inr s'
     \<and> loadPromise s' = LoadResolved h
     \<and> createNodes h = None \<and> createDependencies h = Some CreateDependencies
     \<and> processProjectGraph h = None
     \<and> step s' (Invoke CreateNodes ''[a.json]'' ''1.5'') = Inl NotAFunction
     \<and> step s' (Invoke ProcessProjectGraph ''{}'' ''1.5'') = Inl NotAFunction)
   \<and> (\<exists>s' h. step (loadRemoteNxPlugin 42 ''p'' ''/r'' [])
        (Message (LoadResult (LoadSuccess ''demo'' (Some []) False False))) = Inr s'
     \<and> loadPromise s' = LoadResolved h
     \<and> createNodes h = None \<and> createDependencies h = None \<and> processProjectGraph h = None
     \<and> step s' (Invoke CreateNodes ''[a.json]'' ''1.5'') = Inl NotAFunction)"
proof -
  have p: "loadPromise (loadRemoteNxPlugin 42 ''p'' ''/r'' []) = LoadPending"
    by (simp add: loadRemoteNxPlugin_def)
  have a: "\<exists>s' h. step (loadRemoteNxPlugin 42 ''p'' ''/r'' [])
        (Message (LoadResult (LoadSuccess ''demo'' (Some ''*.json'') False True))) = Inr s'
     \<and> loadPromise s' = LoadResolved h \<and> name h = ''demo''
     \<and> createNodes h = Some (''*.json'', CreateNodes) \<and> createDependencies h = None
     \<and> processProjectGraph h = Some ProcessProjectGraph
     \<and> step s' (Invoke CreateDependencies ''{}'' ''1.5'') = Inl NotAFunction"
  proof -
    obtain s' h where f:
      "step (loadRemoteNxPlugin 42 ''p'' ''/r'' [])
          (Message (LoadResult (LoadSuccess ''demo'' (Some ''*.json'') False True))) = Inr s'"
      "loadPromise s' = LoadResolved h" "name h = ''demo''"
      "createNodes h = (case Some ''*.json'' of None \<Rightarrow> None | Some [] \<Rightarrow> None
                          | Some (c # cs) \<Rightarrow> Some (c # cs, CreateNodes))"
      "createDependencies h = (if False then Some CreateDependencies else None)"
      "processProjectGraph h = (if True then Some ProcessProjectGraph else None)"
      "\<forall>opn args now. operation h opn = None \<longrightarrow> step s' (Invoke opn args now) = Inl NotAFunction"
      using handle_operation_gating[OF p, of "''demo''" "Some ''*.json''" False True] by blast
    have "operation h CreateDependencies = None" using f(5) by (simp add: operation_def)
    then have "step s' (Invoke CreateDependencies ''{}'' ''1.5'') = Inl NotAFunction"
      using f(7) by blast
    then show ?thesis using f by auto
  qed
  have b: "\<exists>s' h. step (loadRemoteNxPlugin 42 ''p'' ''/r'' [])
        (Message (LoadResult (LoadSuccess ''demo'' None True False))) = Inr s'
     \<and> loadPromise s' = LoadResolved h
     \<and> createNodes h = None \<and> createDependencies h = Some CreateDependencies
     \<and> processProjectGraph h = None
     \<and> step s' (Invoke CreateNodes ''[a.json]'' ''1.5'') = Inl NotAFunction
     \<and> step s' (Invoke ProcessProjectGraph ''{}'' ''1.5'') = Inl NotAFunction"
  proof -
    obtain s' h where f:
      "step (loadRemoteNxPlugin 42 ''p'' ''/r'' [])
          (Message (LoadResult (LoadSuccess ''demo'' None True False))) = Inr s'"
      "loadPromise s' = LoadResolved h"
      "createNodes h = (case None of None \<Rightarrow> None | Some [] \<Rightarrow> None
                          | Some (c # cs) \<Rightarrow> Some (c # cs, CreateNodes))"
      "createDependencies h = (if True then Some CreateDependencies else None)"
      "processProjectGraph h = (if False then Some ProcessProjectGraph else None)"
      "\<forall>opn args now. operation h opn = None \<longrightarrow> step s' (Invoke opn args now) = Inl NotAFunction"
      using handle_operation_gating[OF p, of "''demo''" None True False] by blast
    have "operation h CreateNodes = None" "operation h ProcessProjectGraph = None"
      using f(3,5) by (simp_all add: operation_def)
    then have "step s' (Invoke CreateNodes ''[a.json]'' ''1.5'') = Inl NotAFunction"
      "step s' (Invoke ProcessProjectGraph ''{}'' ''1.5'') = Inl NotAFunction"
      using f(6) by blast+
    then show ?thesis using f by auto
  qed
  have c: "\<exists>s' h. step (loadRemoteNxPlugin 42 ''p'' ''/r'' [])
        (Message (LoadResult (LoadSuccess ''demo'' (Some []) False False))) = Inr s'
     \<and> loadPromise s' = LoadResolved h
     \<and> createNodes h = None \<and> createDependencies h = None \<and> processProjectGraph h = None
     \<and> step s' (Invoke CreateNodes ''[a.json]'' ''1.5'') = Inl NotAFunction"
  proof -
    obtain s' h where f:
      "step (loadRemoteNxPlugin 42 ''p'' ''/r'' [])
          (Message (LoadResult (LoadSuccess ''demo'' (Some []) False False))) = Inr s'"
      "loadPromise s' = LoadResolved h"
      "createNodes h = (case Some [] of None \<Rightarrow> None | Some [] \<Rightarrow> None
                          | Some (c # cs) \<Rightarrow> Some (c # cs, CreateNodes))"
      "createDependencies h = (if False then Some CreateDependencies else None)"
      "processProjectGraph h = (if False then Some ProcessProjectGraph else None)"
      "\<forall>opn args now. operation h opn = None \<longrightarrow> step s' (Invoke opn args now) = Inl NotAFunction"
      using handle_operation_gating[OF p, of "''demo''" "Some []" False False] by blast
    have "operation h CreateNodes = None" using f(3) by (simp add: operation_def)
    then have "step s' (Invoke CreateNodes ''[a.json]'' ''1.5'') = Inl NotAFunction"
      using f(6) by blast
    then show ?thesis using f by auto
  qed
  show ?thesis using p a b c by blast
qed

text \<open>
  C9, as stated: two distinct transactions of one worker never share an identifier.
  Two calls of \<open>createNodes\<close> that read the same value of \<open>performance.now()\<close> get the
  same identifier: there are two promises, and the registry holds one entry, for the
  second.
\<close>

theorem same_timestamp_same_tx_counterexample:
  "map_sum id (map tx_id \<circ> promises)
     (run (loadRemoteNxPlugin 42 ''p'' ''/r'' [])
          [Message (LoadResult (LoadSuccess ''demo'' (Some ''*.json'') False False)),
           Invoke CreateNodes ''[a.json]'' ''5.25'',
           Invoke CreateNodes ''[b.json]'' ''5.25'']) = Inr [''demo:createNodes:5.25'', ''demo:createNodes:5.25'']
   \<and> map_sum id pending
     (run (loadRemoteNxPlugin 42 ''p'' ''/r'' [])
          [Message (LoadResult (LoadSuccess ''demo'' (Some ''*.json'') False False)),
           Invoke CreateNodes ''[a.json]'' ''5.25'',
           Invoke CreateNodes ''[b.json]'' ''5.25'']) = Inr [(''demo:createNodes:5.25'', 1)]"
  by (simp add: pool_eval)

text \<open>
  C9, amended: under one plugin name, the identifiers of two calls are equal exactly
  when the calls are of the same operation and read the same timestamp; the identifier
  of the promise a call creates is built from the plugin name, the operation and the
  timestamp that call reads.
\<close>

theorem tx_distinct_iff:
  "(tx_of pn op1 now1 = tx_of pn op2 now2 \<longleftrightarrow> op1 = op2 \<and> now1 = now2)
   \<and> tx_id (last (promises (callOp op1 args now1 s))) = tx_of (pluginName s) op1 now1"
  by (cases op1; cases op2; simp add: tx_of_def op_name_def callOp_eq)




text \<open>
  C3, as stated: the transaction is registered strictly before the request is sent. The
  executor of the promise sends the request, and \<open>pending.set\<close> runs after it: in the
  trace of one call the request precedes the registration.
\<close>

theorem send_before_register_counterexample:
  "map_sum id trace
     (run (loadRemoteNxPlugin 42 ''p'' ''/r'' [])
          [Message (LoadResult (LoadSuccess ''demo'' None True False)),
           Invoke CreateDependencies ''{}'' ''5.25'']) = Inr [Sent (Load ''p'' ''/r''),
             Sent (OpRequest CreateDependencies ''{}'' ''demo:createDependencies:5.25''),
             Registered ''demo:createDependencies:5.25'' 0]
   \<and> map_sum id
       (precedes (Registered ''demo:createDependencies:5.25'' 0)
          (Sent (OpRequest CreateDependencies ''{}'' ''demo:createDependencies:5.25'')) \<circ> trace)
     (run (loadRemoteNxPlugin 42 ''p'' ''/r'' [])
          [Message (LoadResult (LoadSuccess ''demo'' None True False)),
           Invoke CreateDependencies ''{}'' ''5.25'']) = Inr False"
  by (simp add: pool_eval2 precedes_def)

text \<open>
  C3, amended. A call of an operation sends the request and then registers the
  transaction, both in the same turn and with nothing between them: when the turn ends
  the registry maps the identifier to the new pending promise, so a result message with
  that identifier handled in the very next turn is correlated with it, whichever of the
  three result kinds carries it. In every later state the identifier is still
  registered with this promise, and a result message carrying it is correlated with it,
  as long as the promise is still pending and no later call has taken the same
  identifier.
\<close>

theorem registered_within_the_call:
  assumes "run (loadRemoteNxPlugin wpid plugin root cache) es0 = Inr s"
    and "step s (Invoke opn args now) = Inr s'"
    and "run s' es = Inr u"
  shows "trace s' = trace s @ [Sent (OpRequest opn args (tx_of (pluginName s) opn now)),
                              Registered (tx_of (pluginName s) opn now) (length (promises s))]
    \<and> promises s' = promises s @ [\<lparr>tx_id = tx_of (pluginName s) opn now, outcome = Pending\<rparr>]
    \<and> map_of (pending s') (tx_of (pluginName s) opn now) = Some (length (promises s))
    \<and> (\<forall>e r. result_of e = Some (tx_of (pluginName s) opn now, r) \<longrightarrow>
          (\<exists>s''. step s' e = Inr s'' \<and> outcome (promises s'' ! length (promises s)) = outcome_of r))
    \<and> (outcome (promises u ! length (promises s)) = Pending
        \<and> (\<forall>m. length (promises s) < m \<and> m < length (promises u) \<longrightarrow>
              tx_id (promises u ! m) \<noteq> tx_of (pluginName s) opn now)
        \<longrightarrow> map_of (pending u) (tx_of (pluginName s) opn now) = Some (length (promises s))
          \<and> (\<forall>e r. result_of e = Some (tx_of (pluginName s) opn now, r) \<longrightarrow>
                (\<exists>u'. step u e = Inr u'
                   \<and> outcome (promises u' ! length (promises s)) = outcome_of r)))"
proof -
  have q: "quiet s" using assms(1) by (rule quiet_reachable)
  have h: "handle_ok s"
    using handle_ok_reachable[OF assms(1)] by (simp add: handle_ok_def loadRemoteNxPlugin_def)
  have i: "pool_inv s" using assms(1) by (rule reachable_inv)
  have s': "s' = callOp opn args now s" using invoke_step[OF q h assms(2)] .
  let ?t = "tx_of (pluginName s) opn now"
  let ?n = "length (promises s)"
  have a: "trace s' = trace s @ [Sent (OpRequest opn args ?t), Registered ?t ?n]"
    and b: "promises s' = promises s @ [\<lparr>tx_id = ?t, outcome = Pending\<rparr>]"
    and c: "map_of (pending s') ?t = Some ?n"
    by (simp_all add: s' callOp_eq update_lookup)
  have d: "\<forall>e r. result_of e = Some (?t, r) \<longrightarrow>
          (\<exists>s''. step s' e = Inr s'' \<and> outcome (promises s'' ! ?n) = outcome_of r)"
  proof (intro allI impI)
    fix e r assume r: "result_of e = Some (?t, r)"
    show "\<exists>s''. step s' e = Inr s'' \<and> outcome (promises s'' ! ?n) = outcome_of r"
      by (rule response_step[OF r c]) (simp_all add: b)
  qed
  have i': "pool_inv s'" using i assms(2) by (rule inv_step)
  have q': "quiet s'" using assms(2) by (rule quiet_step)
  have h': "handle_ok s'" using h assms(2) by (rule handle_ok_step)
  have n': "?n < length (promises s')" and t': "tx_id (promises s' ! ?n) = ?t"
    by (simp_all add: b)
  note later = stays_registered[OF assms(3) i' q' h' n' t', OF disjI2, OF disjI1, OF c]
  have e: "outcome (promises u ! ?n) = Pending
        \<and> (\<forall>m. ?n < m \<and> m < length (promises u) \<longrightarrow> tx_id (promises u ! m) \<noteq> ?t)
        \<longrightarrow> map_of (pending u) ?t = Some ?n
          \<and> (\<forall>e r. result_of e = Some (?t, r) \<longrightarrow>
                (\<exists>u'. step u e = Inr u' \<and> outcome (promises u' ! ?n) = outcome_of r))"
  proof (intro impI, elim conjE)
    assume pe: "outcome (promises u ! ?n) = Pending"
      and fresh: "\<forall>m. ?n < m \<and> m < length (promises u) \<longrightarrow> tx_id (promises u ! m) \<noteq> ?t"
    have m: "map_of (pending u) ?t = Some ?n" using later pe fresh by blast
    have nu: "?n < length (promises u)" using later by blast
    have "\<forall>e r. result_of e = Some (?t, r) \<longrightarrow>
                (\<exists>u'. step u e = Inr u' \<and> outcome (promises u' ! ?n) = outcome_of r)"
    proof (intro allI impI)
      fix e r assume r: "result_of e = Some (?t, r)"
      show "\<exists>u'. step u e = Inr u' \<and> outcome (promises u' ! ?n) = outcome_of r"
        by (rule response_step[OF r m nu pe])
    qed
    then show "map_of (pending u) ?t = Some ?n
          \<and> (\<forall>e r. result_of e = Some (?t, r) \<longrightarrow>
                (\<exists>u'. step u e = Inr u' \<and> outcome (promises u' ! ?n) = outcome_of r))"
      using m by blast
  qed
  show ?thesis using a b c d e by blast
qed

theorem registered_within_the_call_witness:
  "\<exists>s s' u u'. run (loadRemoteNxPlugin 42 ''p'' ''/r'' [])
          [Message (LoadResult (LoadSuccess ''demo'' (Some ''*.json'') True False))] = Inr s
     \<and> step s (Invoke CreateDependencies ''{}'' ''5.25'') = Inr s'
     \<and> map_of (pending s') ''demo:createDependencies:5.25'' = Some 0
     \<and> run s' [Invoke CreateNodes ''[a.json]'' ''6.5'', Shutdown] = Inr u
     \<and> outcome (promises u ! 0) = Pending
     \<and> map tx_id (promises u) = [''demo:createDependencies:5.25'', ''demo:createNodes:6.5'']
     \<and> map_of (pending u) ''demo:createDependencies:5.25'' = Some 0
     \<and> step u (Message (CreateDependenciesResult ''demo:createDependencies:5.25'' (OpSuccess ''deps'')))
          = Inr u'
     \<and> outcome (promises u' ! 0) = Fulfilled ''deps''"
proof -
  define s where "s = projr (run (loadRemoteNxPlugin 42 ''p'' ''/r'' [])
          [Message (LoadResult (LoadSuccess ''demo'' (Some ''*.json'') True False))])"
  define s' where "s' = projr (step s (Invoke CreateDependencies ''{}'' ''5.25''))"
  define u where "u = projr (run s' [Invoke CreateNodes ''[a.json]'' ''6.5'', Shutdown])"
  have r: "run (loadRemoteNxPlugin 42 ''p'' ''/r'' [])
          [Message (LoadResult (LoadSuccess ''demo'' (Some ''*.json'') True False))] = Inr s"
    by (simp add: s_def pool_eval)
  have st: "step s (Invoke CreateDependencies ''{}'' ''5.25'') = Inr s'"
    by (simp add: s'_def s_def pool_eval)
  have ru: "run s' [Invoke CreateNodes ''[a.json]'' ''6.5'', Shutdown] = Inr u"
    by (simp add: u_def s'_def s_def pool_eval)
  have t: "tx_of (pluginName s) CreateDependencies ''5.25'' = ''demo:createDependencies:5.25''"
    "length (promises s) = 0"
    by (simp_all add: s_def pool_eval)
  have pu: "map tx_id (promises u) = [''demo:createDependencies:5.25'', ''demo:createNodes:6.5'']"
    by (simp add: u_def s'_def s_def pool_eval)
  have pe: "outcome (promises u ! 0) = Pending"
    by (simp add: u_def s'_def s_def pool_eval)
  have fresh: "\<forall>m. 0 < m \<and> m < length (promises u) \<longrightarrow>
      tx_id (promises u ! m) \<noteq> ''demo:createDependencies:5.25''"
  proof (intro allI impI)
    fix m assume m: "0 < m \<and> m < length (promises u)"
    have "length (promises u) = 2" using arg_cong[OF pu, of length] by simp
    then have "m = 1" using m by simp
    moreover have "tx_id (promises u ! 1) = ''demo:createNodes:6.5''"
      using arg_cong[OF pu, of "\<lambda>xs. xs ! 1"] \<open>length (promises u) = 2\<close> by simp
    ultimately show "tx_id (promises u ! m) \<noteq> ''demo:createDependencies:5.25''" by simp
  qed
  have e: "result_of (Message (CreateDependenciesResult ''demo:createDependencies:5.25'' (OpSuccess ''deps'')))
      = Some (''demo:createDependencies:5.25'', OpSuccess ''deps'')"
    by (simp add: result_of_def)
  have o: "outcome_of (OpSuccess ''deps'') = Fulfilled ''deps''" by (simp add: outcome_of_def)
  note c = registered_within_the_call[OF r st ru, unfolded t]
  have m: "map_of (pending s') ''demo:createDependencies:5.25'' = Some 0" using c by blast
  have later: "map_of (pending u) ''demo:createDependencies:5.25'' = Some 0
          \<and> (\<forall>e r. result_of e = Some (''demo:createDependencies:5.25'', r) \<longrightarrow>
                (\<exists>u'. step u e = Inr u' \<and> outcome (promises u' ! 0) = outcome_of r))"
    using c pe fresh by blast
  then obtain u' where u':
    "step u (Message (CreateDependenciesResult ''demo:createDependencies:5.25'' (OpSuccess ''deps'')))
       = Inr u'"
    "outcome (promises u' ! 0) = outcome_of (OpSuccess ''deps'')"
    using e by blast
  have mu: "map_of (pending u) ''demo:createDependencies:5.25'' = Some 0" using later by blast
  have ou: "outcome (promises u' ! 0) = Fulfilled ''deps''" using u'(2) o by simp
  show ?thesis
    by (intro exI[of _ s] exI[of _ s'] exI[of _ u] exI[of _ u'] conjI)
      (rule r st m ru pe pu mu u'(1) ou)+
qed

text \<open>
  C8, as stated: when the worker exits with N transactions registered, all N are
  rejected. With two calls outstanding the shutdown function is invoked and then the
  worker exits: the exit handler has been detached, and both promises stay pending.
\<close>

theorem exit_with_handler_detached_counterexample:
  "map_sum id exited
     (run (loadRemoteNxPlugin 7 ''p'' ''/r'' [])
          [Message (LoadResult (LoadSuccess ''demo'' (Some ''*.json'') True False)),
           Invoke CreateNodes ''[a.json]'' ''1.5'',
           Invoke CreateDependencies ''{}'' ''2.5'',
           Shutdown,
           Exit None]) = Inr True
   \<and> map_sum id (map fst \<circ> pending)
     (run (loadRemoteNxPlugin 7 ''p'' ''/r'' [])
          [Message (LoadResult (LoadSuccess ''demo'' (Some ''*.json'') True False)),
           Invoke CreateNodes ''[a.json]'' ''1.5'',
           Invoke CreateDependencies ''{}'' ''2.5'',
           Shutdown,
           Exit None]) = Inr [''demo:createNodes:1.5'', ''demo:createDependencies:2.5'']
   \<and> map_sum id (map outcome \<circ> promises)
     (run (loadRemoteNxPlugin 7 ''p'' ''/r'' [])
          [Message (LoadResult (LoadSuccess ''demo'' (Some ''*.json'') True False)),
           Invoke CreateNodes ''[a.json]'' ''1.5'',
           Invoke CreateDependencies ''{}'' ''2.5'',
           Shutdown,
           Exit None]) = Inr [Pending, Pending]"
  by (simp add: pool_eval2)

text \<open>
  C8, amended. When the worker exits while the exit handler is attached (the shutdown
  function has not been invoked), every transaction in the registry, each a distinct
  pending promise, is rejected with the error \<open>Plugin worker N exited unexpectedly with
  code C\<close>, where N is the plugin name recorded for the worker, or its pid when there is
  none, and C is the exit code; and the registry is left empty.
\<close>

theorem exit_rejects_all_registered:
  assumes "run (loadRemoteNxPlugin wpid plugin root cache) es = Inr s" and "exitListener s"
  shows "\<exists>s'. step s (Exit c) = Inr s' \<and> pending s' = [] \<and> distinct (map snd (pending s))
     \<and> list_all (\<lambda>(t, p). outcome (promises s ! p) = Pending \<and>
          outcome (promises s' ! p) = Rejected (ExitedUnexpectedly
            (''Plugin worker '' @
             (case map_of (pluginNames s) (pid s) of Some n \<Rightarrow> n | None \<Rightarrow> show_nat (pid s)) @
             '' exited unexpectedly with code '' @ show_exitCode c))) (pending s)"
proof -
  have i: "pool_inv s" using assms(1) by (rule reachable_inv)
  have r: "registered s" using i by (simp add: pool_inv_def)
  obtain s' where s': "step s (Exit c) = Inr s'" "pending s' = []"
    "list_all (\<lambda>(t, p). outcome (promises s' ! p) =
          Rejected (ExitedUnexpectedly (exitMessage (s\<lparr>exited := True, exitCode := c\<rparr>)))) (pending s)"
    using exit_rejects[OF i assms(2), of c] by blast
  have "list_all (\<lambda>(t, p). outcome (promises s ! p) = Pending \<and>
          outcome (promises s' ! p) = Rejected (ExitedUnexpectedly
            (''Plugin worker '' @
             (case map_of (pluginNames s) (pid s) of Some n \<Rightarrow> n | None \<Rightarrow> show_nat (pid s)) @
             '' exited unexpectedly with code '' @ show_exitCode c))) (pending s)"
    using s'(3) r unfolding exitMessage_exit registered_def list_all_iff by fastforce
  then show ?thesis using s'(1,2) registered_distinct_snd[OF r] by blast
qed

theorem exit_rejects_all_registered_witness:
  "\<exists>s s'. run (loadRemoteNxPlugin 7 ''p'' ''/r'' [])
          [Message (LoadResult (LoadSuccess ''demo'' (Some ''*.json'') True False)),
           Invoke CreateNodes ''[a.json]'' ''1.5'',
           Invoke CreateDependencies ''{}'' ''2.5''] = Inr s
     \<and> exitListener s \<and> map snd (pending s) = [0, 1]
     \<and> step s (Exit (Some 1)) = Inr s' \<and> pending s' = []
     \<and> outcome (promises s' ! 0) =
          Rejected (ExitedUnexpectedly ''Plugin worker demo exited unexpectedly with code 1'')
     \<and> outcome (promises s' ! 1) =
          Rejected (ExitedUnexpectedly ''Plugin worker demo exited unexpectedly with code 1'')"
proof -
  define s where "s = projr (run (loadRemoteNxPlugin 7 ''p'' ''/r'' [])
          [Message (LoadResult (LoadSuccess ''demo'' (Some ''*.json'') True False)),
           Invoke CreateNodes ''[a.json]'' ''1.5'',
           Invoke CreateDependencies ''{}'' ''2.5''])"
  have r: "run (loadRemoteNxPlugin 7 ''p'' ''/r'' [])
          [Message (LoadResult (LoadSuccess ''demo'' (Some ''*.json'') True False)),
           Invoke CreateNodes ''[a.json]'' ''1.5'',
           Invoke CreateDependencies ''{}'' ''2.5''] = Inr s"
    by (simp add: s_def pool_eval)
  have l: "exitListener s" by (simp add: s_def pool_eval)
  have p: "pending s = [(''demo:createNodes:1.5'', 0), (''demo:createDependencies:2.5'', 1)]"
    by (simp add: s_def pool_eval)
  have n: "map_of (pluginNames s) (pid s) = Some ''demo''"
    by (simp add: s_def pool_eval)
  have c: "show_exitCode (Some 1) = ''1''"
    by (simp add: show_exitCode_def show_int_def show_nat.simps digit_def)
  obtain s' where s': "step s (Exit (Some 1)) = Inr s'" "pending s' = []"
    "list_all (\<lambda>(t, p). outcome (promises s ! p) = Pending \<and>
          outcome (promises s' ! p) = Rejected (ExitedUnexpectedly
            (''Plugin worker '' @
             (case map_of (pluginNames s) (pid s) of Some n \<Rightarrow> n | None \<Rightarrow> show_nat (pid s)) @
             '' exited unexpectedly with code '' @ show_exitCode (Some 1)))) (pending s)"
    using exit_rejects_all_registered[OF r l, of "Some 1"] by blast
  have o: "outcome (promises s' ! 0) =
          Rejected (ExitedUnexpectedly ''Plugin worker demo exited unexpectedly with code 1'')"
    "outcome (promises s' ! 1) =
          Rejected (ExitedUnexpectedly ''Plugin worker demo exited unexpectedly with code 1'')"
    using s'(3) unfolding p n c by simp_all
  have m: "map snd (pending s) = [0, 1]" by (simp add: p)
  show ?thesis
    by (intro exI[of _ s] exI[of _ s'] conjI) (rule r l m s'(1,2) o)+
qed

text \<open>
  C10. The shutdown function detaches the exit handler first, then clears the cache and
  awaits the pending promises. In every state after it the exit handler is detached; an
  exit of the worker changes no promise and no entry of the registry; and a pending
  transaction can be settled only by a result message with an identifier registered
  for it.
\<close>

theorem exit_after_shutdown_settles_nothing:
  assumes "step s Shutdown = Inr s1" and "run s1 es = Inr u"
  shows "(\<exists>rest. trace s1 = trace s @ OffExit # CacheCleared # Awaiting (map snd (pending s)) # rest)
     \<and> \<not> exitListener u
     \<and> (\<exists>u'. step u (Exit c) = Inr u' \<and> promises u' = promises u \<and> pending u' = pending u)
     \<and> (\<forall>e u'. step u e = Inr u' \<and> p < length (promises u) \<and> outcome (promises u ! p) = Pending
            \<and> outcome (promises u' ! p) \<noteq> Pending \<longrightarrow>
          (\<exists>t r. result_of e = Some (t, r) \<and> map_of (pending u) t = Some p
              \<and> outcome (promises u' ! p) = outcome_of r))"
proof -
  note sh = shutdown_step[OF assms(1)]
  have u: "\<not> exitListener u \<and> finallyQueue u = []"
    using detached_run[OF assms(2)] sh by blast
  have ex: "\<exists>u'. step u (Exit c) = Inr u' \<and> promises u' = promises u \<and> pending u' = pending u"
    using exit_detached u by blast
  have only: "\<forall>e u'. step u e = Inr u' \<and> p < length (promises u) \<and> outcome (promises u ! p) = Pending
            \<and> outcome (promises u' ! p) \<noteq> Pending \<longrightarrow>
          (\<exists>t r. result_of e = Some (t, r) \<and> map_of (pending u) t = Some p
              \<and> outcome (promises u' ! p) = outcome_of r)"
  proof (intro allI impI, elim conjE)
    fix e u'
    assume st: "step u e = Inr u'" and p: "p < length (promises u)"
      and pe: "outcome (promises u ! p) = Pending" and dn: "outcome (promises u' ! p) \<noteq> Pending"
    show "\<exists>t r. result_of e = Some (t, r) \<and> map_of (pending u) t = Some p
              \<and> outcome (promises u' ! p) = outcome_of r"
      using settle_cause[OF st p pe dn] u by blast
  qed
  show ?thesis using sh u ex only by blast
qed

theorem exit_after_shutdown_settles_nothing_witness:
  "\<exists>s s1 u. run (loadRemoteNxPlugin 42 ''p'' ''/r'' [])
          [Message (LoadResult (LoadSuccess ''demo'' None True False)),
           Invoke CreateDependencies ''{}'' ''5.25''] = Inr s
     \<and> step s Shutdown = Inr s1 \<and> run s1 [Exit (Some 1)] = Inr u
     \<and> \<not> exitListener u \<and> outcome (promises u ! 0) = Pending
     \<and> (\<exists>u'. step u (Exit None) = Inr u' \<and> promises u' = promises u \<and> pending u' = pending u)"
proof -
  let ?s = "projr (run (loadRemoteNxPlugin 42 ''p'' ''/r'' [])
          [Message (LoadResult (LoadSuccess ''demo'' None True False)),
           Invoke CreateDependencies ''{}'' ''5.25''])"
  let ?s1 = "projr (step ?s Shutdown)"
  let ?u = "projr (run ?s1 [Exit (Some 1)])"
  have r: "run (loadRemoteNxPlugin 42 ''p'' ''/r'' [])
          [Message (LoadResult (LoadSuccess ''demo'' None True False)),
           Invoke CreateDependencies ''{}'' ''5.25''] = Inr ?s" by (simp add: pool_eval)
  have s1: "step ?s Shutdown = Inr ?s1" by (simp add: pool_eval)
  have u: "run ?s1 [Exit (Some 1)] = Inr ?u" by (simp add: pool_eval)
  have p: "outcome (promises ?u ! 0) = Pending" by (simp add: pool_eval)
  from exit_after_shutdown_settles_nothing[OF s1 u, of None 0]
  show ?thesis using r s1 u p by blast
qed

text \<open>
  C6, as stated: two or more invocations have the same effect as one. With an empty
  registry three invocations in a row clear the cache three times and send SIGINT three
  times, where one invocation does each once. And when a failure result comes between
  two invocations, the second one sends SIGINT (its wait finds an empty registry), where
  after a single invocation the worker is never signalled.
\<close>

theorem repeated_shutdown_counterexample:
  "map_sum id (filter ((=) Kill) \<circ> trace)
     (run (loadRemoteNxPlugin 42 ''p'' ''/r'' [''plugin-a''])
        [Message (LoadResult (LoadSuccess ''demo'' None True False)),
         Shutdown]) = Inr [Kill]
   \<and> map_sum id (filter ((=) Kill) \<circ> trace)
     (run (loadRemoteNxPlugin 42 ''p'' ''/r'' [''plugin-a''])
        [Message (LoadResult (LoadSuccess ''demo'' None True False)),
         Shutdown, Shutdown, Shutdown]) = Inr [Kill, Kill, Kill]
   \<and> map_sum id (filter ((=) CacheCleared) \<circ> trace)
     (run (loadRemoteNxPlugin 42 ''p'' ''/r'' [''plugin-a''])
        [Message (LoadResult (LoadSuccess ''demo'' None True False)),
         Shutdown, Shutdown, Shutdown]) = Inr [CacheCleared, CacheCleared, CacheCleared]
   \<and> map_sum id killed
     (run (loadRemoteNxPlugin 42 ''p'' ''/r'' [''plugin-a''])
        [Message (LoadResult (LoadSuccess ''demo'' None True False)),
         Invoke CreateDependencies ''{}'' ''5.25'',
         Shutdown,
         Message (CreateDependenciesResult ''demo:createDependencies:5.25'' (OpFailure ''boom''))])
       = Inr False
   \<and> map_sum id killed
     (run (loadRemoteNxPlugin 42 ''p'' ''/r'' [''plugin-a''])
        [Message (LoadResult (LoadSuccess ''demo'' None True False)),
         Invoke CreateDependencies ''{}'' ''5.25'',
         Shutdown,
         Message (CreateDependenciesResult ''demo:createDependencies:5.25'' (OpFailure ''boom'')),
         Shutdown])
       = Inr True"
  by (simp add: pool_eval)

text \<open>
  C6, amended. From every state reached from \<open>loadRemoteNxPlugin\<close>, \<open>n + 1\<close> invocations of
  the shutdown function in a row give the state that one invocation gives, but for the
  suspended shutdowns and the trace: the exit listener is detached, the cache is empty,
  the cleanup function is removed, the registry and the promises are untouched, and the
  worker is killed exactly when it was already, or the registry is empty and the process
  has not exited. The actions are repeated: the trace holds \<open>n + 1\<close> times the detach,
  the clearing of the cache and the await, each followed by its own SIGINT when the
  registry is empty; when it is not, \<open>n + 1\<close> suspended shutdowns wait for the same
  promises. After any further events the two runs end in the same exception or in the
  same state.
\<close>

theorem repeated_shutdown:
  assumes "run (loadRemoteNxPlugin wpid plugin root cache) es0 = Inr s"
  shows "\<exists>t. run s [Shutdown] = Inr t
     \<and> run s (replicate (Suc n) Shutdown) =
         Inr (t\<lparr>shutdownWaits := shutdownWaits s @
                   (if pending s = [] then [] else replicate (Suc n) (map snd (pending s))),
                trace := trace s @ concat (replicate (Suc n)
                   (OffExit # CacheCleared # Awaiting (map snd (pending s))
                      # (if pending s = [] then [Kill] else [])))\<rparr>)
     \<and> \<not> exitListener t \<and> nxPluginCache t = []
     \<and> cleanupFunctions t = removeAll (pid s) (cleanupFunctions s)
     \<and> pending t = pending s \<and> promises t = promises s
     \<and> killed t = (killed s \<or> (pending s = [] \<and> \<not> exited s))
     \<and> (\<forall>es. same_outcome (run s (replicate (Suc n) Shutdown @ es)) (run s (Shutdown # es)))"
proof -
  have i: "pool_inv s" using assms by (rule reachable_inv)
  have q: "quiet s" using assms by (rule quiet_reachable)
  let ?w = "map snd (pending s)"
  let ?t = "s\<lparr>exitListener := False, nxPluginCache := [],
      cleanupFunctions := removeAll (pid s) (cleanupFunctions s),
      shutdownWaits := shutdownWaits s @ (if pending s = [] then [] else [?w]),
      killed := (killed s \<or> (pending s = [] \<and> \<not> exited s)),
      trace := trace s @ OffExit # CacheCleared # Awaiting ?w
                 # (if pending s = [] then [Kill] else [])\<rparr>"
  let ?tn = "s\<lparr>exitListener := False, nxPluginCache := [],
      cleanupFunctions := removeAll (pid s) (cleanupFunctions s),
      shutdownWaits := shutdownWaits s @ (if pending s = [] then [] else replicate (Suc n) ?w),
      killed := (killed s \<or> (pending s = [] \<and> \<not> exited s)),
      trace := trace s @ concat (replicate (Suc n)
                 (OffExit # CacheCleared # Awaiting ?w # (if pending s = [] then [Kill] else [])))\<rparr>"
  have one: "run s [Shutdown] = Inr ?t" using shutdown_exact[OF i q] by simp
  have many: "run s (replicate (Suc n) Shutdown) = Inr ?tn" using shutdowns_exact[OF i q] .
  have eq: "?tn = ?t\<lparr>shutdownWaits := shutdownWaits s @
                   (if pending s = [] then [] else replicate (Suc n) ?w),
                trace := trace s @ concat (replicate (Suc n)
                   (OffExit # CacheCleared # Awaiting ?w # (if pending s = [] then [Kill] else [])))\<rparr>"
    by simp
  have ss: "same_state ?tn ?t" by (auto simp add: same_state_def)
  have later: "\<forall>es. same_outcome (run s (replicate (Suc n) Shutdown @ es)) (run s (Shutdown # es))"
  proof
    fix es
    have a: "run s (replicate (Suc n) Shutdown @ es) = run ?tn es"
      unfolding run_append many by simp
    have b: "run s (Shutdown # es) = run ?t es"
      using run_append[of s "[Shutdown]" es] one by simp
    show "same_outcome (run s (replicate (Suc n) Shutdown @ es)) (run s (Shutdown # es))"
      unfolding a b using ss by (rule ss_run)
  qed
  have fields: "\<not> exitListener ?t \<and> nxPluginCache ?t = []
     \<and> cleanupFunctions ?t = removeAll (pid s) (cleanupFunctions s)
     \<and> pending ?t = pending s \<and> promises ?t = promises s
     \<and> killed ?t = (killed s \<or> (pending s = [] \<and> \<not> exited s))"
    by simp
  show ?thesis
    using one many[unfolded eq] fields later by (intro exI[of _ ?t] conjI) blast+
qed

theorem repeated_shutdown_witness:
  "\<exists>s t t3. run (loadRemoteNxPlugin 42 ''p'' ''/r'' [''plugin-a''])
          [Message (LoadResult (LoadSuccess ''demo'' None True False)),
           Invoke CreateDependencies ''{}'' ''5.25''] = Inr s
     \<and> run s [Shutdown] = Inr t \<and> run s [Shutdown, Shutdown, Shutdown] = Inr t3
     \<and> shutdownWaits t = [[0]] \<and> shutdownWaits t3 = [[0], [0], [0]]
     \<and> filter ((=) CacheCleared) (trace t) = [CacheCleared]
     \<and> filter ((=) CacheCleared) (trace t3) = [CacheCleared, CacheCleared, CacheCleared]
     \<and> same_state t3 t \<and> \<not> killed t \<and> \<not> exitListener t
     \<and> cleanupFunctions t = [] \<and> nxPluginCache t = []"
proof -
  define s where "s = projr (run (loadRemoteNxPlugin 42 ''p'' ''/r'' [''plugin-a''])
          [Message (LoadResult (LoadSuccess ''demo'' None True False)),
           Invoke CreateDependencies ''{}'' ''5.25''])"
  have r: "run (loadRemoteNxPlugin 42 ''p'' ''/r'' [''plugin-a''])
          [Message (LoadResult (LoadSuccess ''demo'' None True False)),
           Invoke CreateDependencies ''{}'' ''5.25''] = Inr s"
    by (simp add: s_def pool_eval)
  have f: "pending s = [(''demo:createDependencies:5.25'', 0)]" "shutdownWaits s = []"
    "\<not> killed s" "cleanupFunctions s = [42]" "pid s = 42"
    "filter ((=) CacheCleared) (trace s) = []"
    by (simp_all add: s_def pool_eval)
  obtain t where t: "run s [Shutdown] = Inr t"
    "run s (replicate (Suc (Suc (Suc 0))) Shutdown) =
         Inr (t\<lparr>shutdownWaits := shutdownWaits s @
                   (if pending s = [] then [] else replicate (Suc (Suc (Suc 0))) (map snd (pending s))),
                trace := trace s @ concat (replicate (Suc (Suc (Suc 0)))
                   (OffExit # CacheCleared # Awaiting (map snd (pending s))
                      # (if pending s = [] then [Kill] else [])))\<rparr>)"
    "\<not> exitListener t" "nxPluginCache t = []"
    "cleanupFunctions t = removeAll (pid s) (cleanupFunctions s)"
    "killed t = (killed s \<or> (pending s = [] \<and> \<not> exited s))"
    "\<forall>es. same_outcome (run s (replicate (Suc (Suc (Suc 0))) Shutdown @ es)) (run s (Shutdown # es))"
    using repeated_shutdown[OF r, of "Suc (Suc 0)"] by blast
  define t3 where "t3 = t\<lparr>shutdownWaits := [[0], [0], [0]],
       trace := trace s @ [OffExit, CacheCleared, Awaiting [0], OffExit, CacheCleared, Awaiting [0],
                           OffExit, CacheCleared, Awaiting [0]]\<rparr>"
  have r3: "run s [Shutdown, Shutdown, Shutdown] = Inr t3"
    using t(2) unfolding f t3_def by simp
  have w1: "shutdownWaits t = [[0]]"
  proof -
    have "run s [Shutdown] = Inr (projr (run s [Shutdown]))" using t(1) by simp
    moreover have "shutdownWaits (projr (run s [Shutdown])) = [[0]]"
      by (simp add: s_def pool_eval)
    ultimately show ?thesis using t(1) by simp
  qed
  have c1: "filter ((=) CacheCleared) (trace t) = [CacheCleared]"
  proof -
    have "filter ((=) CacheCleared) (trace (projr (run s [Shutdown]))) = [CacheCleared]"
      by (simp add: s_def pool_eval)
    then show ?thesis using t(1) by simp
  qed
  have w3: "shutdownWaits t3 = [[0], [0], [0]]" by (simp add: t3_def)
  have c3: "filter ((=) CacheCleared) (trace t3) = [CacheCleared, CacheCleared, CacheCleared]"
    by (simp add: t3_def f)
  have ss: "same_state t3 t"
    using t(7)[rule_format, of "[]"] t(1) r3 by simp
  have k: "\<not> killed t" using t(6) f by simp
  have cf: "cleanupFunctions t = []" using t(5) f by simp
  show ?thesis
    by (intro exI[of _ s] exI[of _ t] exI[of _ t3] conjI) (rule r t(1) r3 w1 w3 c1 c3 ss k t(3) cf t(4))+
qed

end
